theory Spec2Isabelle
  imports Main "HOL-Library.Word"
begin

unbundle bit_operations_syntax

section \<open>Platform values: buffers, numbers, strings\<close>

text \<open>
  A Node \<open>Buffer\<close> is a sequence of octets. The parser slices the chunk it is handed
  into disjoint regions (header, payload, rest) and mutates only the payload region,
  so buffers are modelled as values.
\<close>

type_synonym byte = "8 word"
type_synonym buffer = "byte list"

text \<open>
  \<open>Buffer.from(string, 'utf8')\<close> and \<open>buffer.toString('utf8')\<close>. A JavaScript string is
  represented by the octets of its UTF-8 encoding (an Isabelle \<open>char\<close> is one octet), which
  is exact for every well-formed text; the replacement characters Node substitutes for
  ill-formed input are not modelled.
\<close>

definition bufferFromString :: "string \<Rightarrow> buffer" where
  "bufferFromString s = map (\<lambda>c. of_char c) s"

definition bufferToString :: "buffer \<Rightarrow> string" where
  "bufferToString b = map (\<lambda>x. char_of (unat x)) b"

text \<open>\<open>n.toString()\<close> of a nonnegative integer: its decimal digits.\<close>

fun numberToString :: "nat \<Rightarrow> string" where
  "numberToString n =
     (if n < 10 then [char_of (48 + n)]
      else numberToString (n div 10) @ [char_of (48 + n mod 10)])"

declare numberToString.simps [simp del]

text \<open>
  JavaScript numbers are IEEE doubles. \<open>Number(b)\<close> of a nonnegative BigInt, and the
  difference of two integral doubles, is the nearest double, ties to even: exact up to
  \<open>2^53\<close>, rounded to 53 significant bits above.
\<close>

fun bitLength :: "nat \<Rightarrow> nat" where
  "bitLength n = (if n = 0 then 0 else Suc (bitLength (n div 2)))"

declare bitLength.simps [simp del]

definition toNumber :: "nat \<Rightarrow> nat" where
  "toNumber n =
     (if n < 2 ^ 53 then n
      else
        let e = bitLength n - 53;
            q = n div 2 ^ e;
            r = n mod 2 ^ e;
            half = 2 ^ (e - 1)
        in if r < half then q * 2 ^ e
           else if half < r then (q + 1) * 2 ^ e
           else if even q then q * 2 ^ e
           else (q + 1) * 2 ^ e)"

text \<open>The big-endian accessors of \<open>Buffer\<close> used by the codec.\<close>

definition writeUInt16BE :: "nat \<Rightarrow> buffer" where
  "writeUInt16BE v = [of_nat (v div 256), of_nat v]"

fun bigEndian :: "nat \<Rightarrow> nat \<Rightarrow> buffer" where
  "bigEndian 0 v = []"
| "bigEndian (Suc k) v = of_nat (v div 256 ^ k) # bigEndian k v"

definition writeBigUInt64BE :: "nat \<Rightarrow> buffer" where
  "writeBigUInt64BE v = bigEndian 8 v"

definition readUInt16BE :: "buffer \<Rightarrow> nat \<Rightarrow> nat" where
  "readUInt16BE b off = unat (b ! off) * 256 + unat (b ! (off + 1))"

definition readBigUInt64BE :: "buffer \<Rightarrow> nat \<Rightarrow> nat" where
  "readBigUInt64BE b off = foldl (\<lambda>acc x. acc * 256 + unat x) 0 (take 8 (drop off b))"

section \<open>Constants\<close>

definition MASKING_KEY_SIZE :: nat where "MASKING_KEY_SIZE = 4"

definition OPCODE_CONTINUATION_FRAME :: byte where "OPCODE_CONTINUATION_FRAME = 0x0"
definition OPCODE_TEXT_FRAME :: byte where "OPCODE_TEXT_FRAME = 0x1"
definition OPCODE_BINARY_FRAME :: byte where "OPCODE_BINARY_FRAME = 0x2"
definition OPCODE_CONNECTION_CLOSE :: byte where "OPCODE_CONNECTION_CLOSE = 0x8"
definition OPCODE_PING :: byte where "OPCODE_PING = 0x9"
definition OPCODE_PONG :: byte where "OPCODE_PONG = 0xA"

section \<open>Frame codec\<close>

definition createHeaderOnlyUnmaskedFrame :: "byte \<Rightarrow> buffer" where
  "createHeaderOnlyUnmaskedFrame opCode = [push_bit 7 1 + opCode, 0]"

definition createHeaderOnlyMaskedFrame :: "byte \<Rightarrow> buffer" where
  "createHeaderOnlyMaskedFrame opCode =
     [push_bit 7 1 + opCode, push_bit 7 1] @ replicate MASKING_KEY_SIZE 0"

definition FRAME_DATA_PING_UNMASKED :: buffer where
  "FRAME_DATA_PING_UNMASKED = createHeaderOnlyUnmaskedFrame OPCODE_PING"
definition FRAME_DATA_PONG_UNMASKED :: buffer where
  "FRAME_DATA_PONG_UNMASKED = createHeaderOnlyUnmaskedFrame OPCODE_PONG"
definition FRAME_DATA_PING_MASKED :: buffer where
  "FRAME_DATA_PING_MASKED = createHeaderOnlyMaskedFrame OPCODE_PING"
definition FRAME_DATA_PONG_MASKED :: buffer where
  "FRAME_DATA_PONG_MASKED = createHeaderOnlyMaskedFrame OPCODE_PONG"

text \<open>
  Indexing a key: an index past the end reads \<open>undefined\<close> in JavaScript, and
  \<open>b ^ undefined\<close> is \<open>b\<close>, so the missing octet acts as zero.
\<close>

definition keyAt :: "buffer \<Rightarrow> nat \<Rightarrow> byte" where
  "keyAt key i = (if i < length key then key ! i else 0)"

text \<open>
  The masking loop of \<open>createMessageFrame\<close>:
  \<open>for (i = 0; i < length; ++i) payload[i] = payload[i] ^ maskingKey[i % MASKING_KEY_SIZE]\<close>,
  started at index \<open>i\<close>.
\<close>

fun maskPayload :: "buffer \<Rightarrow> nat \<Rightarrow> buffer \<Rightarrow> buffer" where
  "maskPayload maskingKey i [] = []"
| "maskPayload maskingKey i (b # payload) =
     (b XOR keyAt maskingKey (i mod MASKING_KEY_SIZE)) # maskPayload maskingKey (Suc i) payload"

text \<open>
  The header that \<open>createMessageFrame\<close> allocates and fills before masking: the length
  code and its extension, then byte 0.
\<close>

definition createMessageFrame_header :: "byte \<Rightarrow> nat \<Rightarrow> buffer" where
  "createMessageFrame_header opCode len =
     (let rest =
        (if len < 126 then [of_nat len]
         else if len < 2 ^ 16 then 126 # writeUInt16BE len
         else 127 # writeBigUInt64BE len)
      in (push_bit 7 1 + opCode) # rest)"

text \<open>
  \<open>createMessageFrame(opCode, payload, toMask)\<close>. The argument \<open>rnd\<close> is what
  \<open>Crypto.randomBytes(MASKING_KEY_SIZE)\<close> returns in this call; it is read only when
  \<open>toMask\<close> holds. The caller's payload is copied before it is masked.
\<close>

definition createMessageFrame :: "buffer \<Rightarrow> byte \<Rightarrow> buffer \<Rightarrow> bool \<Rightarrow> buffer" where
  "createMessageFrame rnd opCode payload toMask =
     (let len = length payload;
          header = createMessageFrame_header opCode len
      in if toMask then
           (let maskingKey = rnd;
                payload = maskPayload maskingKey 0 payload;
                header = header[1 := (header ! 1) OR push_bit 7 1]
            in header @ maskingKey @ payload)
         else header @ payload)"

definition createTextFrame :: "buffer \<Rightarrow> string \<Rightarrow> bool \<Rightarrow> buffer" where
  "createTextFrame rnd string toMask =
     createMessageFrame rnd OPCODE_TEXT_FRAME (bufferFromString string) toMask"

definition createBinaryFrame :: "buffer \<Rightarrow> buffer \<Rightarrow> bool \<Rightarrow> buffer" where
  "createBinaryFrame rnd buffer toMask =
     createMessageFrame rnd OPCODE_BINARY_FRAME buffer toMask"

definition createCloseFrame :: "buffer \<Rightarrow> nat \<Rightarrow> bool \<Rightarrow> buffer" where
  "createCloseFrame rnd code toMask =
     createMessageFrame rnd OPCODE_CONNECTION_CLOSE (bufferFromString (numberToString code)) toMask"

section \<open>The connection\<close>

text \<open>
  Everything a connection does to the outside is a call on its socket or a call of a host
  callback. The model records these calls, in the order they are made, in the field
  \<open>effects\<close>. A host callback is identified by a number; the callbacks themselves are
  taken to return normally without calling back into the connection.
\<close>

type_synonym callback = nat

datatype effect =
    SocketWrite buffer
  | SocketEnd
  | CallText callback string
  | CallBinary callback buffer
  | CallSync callback nat
  | CallEnd callback string nat "string option"

datatype exn = TypeError

record connection =
  isPeerMaskingRequired :: bool
  toMaskOwnMessages :: bool
  onTextMessage :: "callback option"
  onBinaryMessage :: "callback option"
  onSync :: "callback option"
  onEnd :: "callback option"
  isAlive :: bool
  lastSyncDate :: nat
  isReadingMessage :: bool
  isFinSet :: bool
  isMasked :: bool
  payloadOpCode :: byte
  maskingKey :: "buffer option"
  maskingIndex :: nat
  remainingLength :: nat
  payloadBuffers :: "buffer list"
  effects :: "effect list"

text \<open>
  The constructor \<open>WebSocketConnection({socket, isPeerMaskingRequired, toMaskOwnMessages})\<close>;
  \<open>now\<close> is the value of \<open>new Date()\<close> at construction.
\<close>

definition WebSocketConnection :: "bool \<Rightarrow> bool \<Rightarrow> nat \<Rightarrow> connection" where
  "WebSocketConnection peerMasking maskOwn now =
     \<lparr> isPeerMaskingRequired = peerMasking,
       toMaskOwnMessages = maskOwn,
       onTextMessage = None,
       onBinaryMessage = None,
       onSync = None,
       onEnd = None,
       isAlive = True,
       lastSyncDate = now,
       isReadingMessage = False,
       isFinSet = False,
       isMasked = False,
       payloadOpCode = 0x0,
       maskingKey = None,
       maskingIndex = 0,
       remainingLength = 0,
       payloadBuffers = [],
       effects = [] \<rparr>"

definition emit :: "effect \<Rightarrow> connection \<Rightarrow> connection" where
  "emit e st = st\<lparr>effects := effects st @ [e]\<rparr>"

definition frameDataPing :: "connection \<Rightarrow> buffer" where
  "frameDataPing st =
     (if toMaskOwnMessages st then FRAME_DATA_PING_MASKED else FRAME_DATA_PING_UNMASKED)"

definition frameDataPong :: "connection \<Rightarrow> buffer" where
  "frameDataPong st =
     (if toMaskOwnMessages st then FRAME_DATA_PONG_MASKED else FRAME_DATA_PONG_UNMASKED)"

subsection \<open>Sending\<close>

definition sendTextMessage :: "connection \<Rightarrow> buffer \<Rightarrow> string \<Rightarrow> connection" where
  "sendTextMessage st rnd string =
     emit (SocketWrite (createTextFrame rnd string (toMaskOwnMessages st))) st"

definition sendBinaryMessage :: "connection \<Rightarrow> buffer \<Rightarrow> buffer \<Rightarrow> connection" where
  "sendBinaryMessage st rnd buffer =
     emit (SocketWrite (createBinaryFrame rnd buffer (toMaskOwnMessages st))) st"

definition sendPing :: "connection \<Rightarrow> connection" where
  "sendPing st = emit (SocketWrite (frameDataPing st)) st"

definition sendPong :: "connection \<Rightarrow> connection" where
  "sendPong st = emit (SocketWrite (frameDataPong st)) st"

subsection \<open>Termination\<close>

definition dropConnection ::
  "connection \<Rightarrow> buffer \<Rightarrow> nat \<Rightarrow> string \<Rightarrow> string option \<Rightarrow> connection" where
  "dropConnection st rnd statusCode appCode error =
     (if \<not> isAlive st then st
      else
        let st = st\<lparr>isAlive := False\<rparr>;
            st = emit (SocketWrite (createCloseFrame rnd statusCode (toMaskOwnMessages st))) st;
            st = emit SocketEnd st
        in case onEnd st of
             None \<Rightarrow> st
           | Some cb \<Rightarrow> emit (CallEnd cb appCode statusCode error) st)"

subsection \<open>The streaming parser\<close>

text \<open>
  A block of \<open>readDataFrameHeader\<close> either returns from the function, leaving a final
  state, or falls through to the next block with the values it computed.
\<close>

datatype 'a flow = Return connection | Next 'a

fun andThen :: "'a flow \<Rightarrow> ('a \<Rightarrow> 'b flow) \<Rightarrow> 'b flow" where
  "andThen (Return st) f = Return st"
| "andThen (Next x) f = f x"

text \<open>
  Lines 466 to 483 of \<open>readDataFrameHeader\<close>: the two-octet minimum, then byte 0 with
  \<open>isFinSet\<close>, the reserved bits and \<open>opCode\<close>.
\<close>

definition readDataFrameHeader_byte0 :: "connection \<Rightarrow> buffer \<Rightarrow> buffer \<Rightarrow> (connection \<times> byte) flow" where
  "readDataFrameHeader_byte0 st rnd buffer =
     (let len = length buffer;
          minLength = 2
      in if len < minLength
         then Return (dropConnection st rnd 1002 ''ERR_INAVLID_DATA_FRAME_H2'' None)
         else
           let byte0 = buffer ! 0;
               st = st\<lparr>isFinSet := (byte0 AND push_bit 7 1 \<noteq> 0)\<rparr>;
               isRSV1Set = (byte0 AND push_bit 6 1 \<noteq> 0);
               isRSV2Set = (byte0 AND push_bit 5 1 \<noteq> 0);
               isRSV3Set = (byte0 AND push_bit 4 1 \<noteq> 0)
           in if isRSV1Set \<or> isRSV2Set \<or> isRSV3Set
              then Return (dropConnection st rnd 1003 ''INVALID_EXTENSION'' None)
              else Next (st, byte0 AND (push_bit 4 1 - 1)))"

text \<open>Lines 486 to 495: byte 1 with \<open>isMasked\<close>, the masking policy and \<open>payloadLength7\<close>.\<close>

definition readDataFrameHeader_byte1 :: "connection \<Rightarrow> buffer \<Rightarrow> buffer \<Rightarrow> (connection \<times> byte) flow" where
  "readDataFrameHeader_byte1 st rnd buffer =
     (let byte1 = buffer ! 1;
          st = st\<lparr>isMasked := (byte1 AND push_bit 7 1 \<noteq> 0)\<rparr>
      in if isPeerMaskingRequired st \<and> \<not> isMasked st
         then Return (dropConnection st rnd 1008 ''ERR_PEER_MASKING_DISABLED'' None)
         else Next (st, byte1 AND (push_bit 7 1 - 1)))"

text \<open>
  Lines 499 to 516: the extended payload length. It yields \<open>payloadLength\<close>, \<open>minLength\<close>
  and \<open>nextBufferIndex\<close>.
\<close>

definition readDataFrameHeader_length ::
  "connection \<Rightarrow> buffer \<Rightarrow> buffer \<Rightarrow> byte \<Rightarrow> (nat \<times> nat \<times> nat) flow" where
  "readDataFrameHeader_length st rnd buffer payloadLength7 =
     (let len = length buffer;
          minLength = 2;
          nextBufferIndex = 2
      in if payloadLength7 = 126 then
           (let minLength = minLength + 2
            in if len < minLength
               then Return (dropConnection st rnd 1002 ''ERR_INAVLID_DATA_FRAME_P16'' None)
               else Next (readUInt16BE buffer nextBufferIndex, minLength, nextBufferIndex + 2))
         else if payloadLength7 = 127 then
           (let minLength = minLength + 8
            in if len < minLength
               then Return (dropConnection st rnd 1002 ''ERR_INAVLID_DATA_FRAME_P64'' None)
               else Next (toNumber (readBigUInt64BE buffer nextBufferIndex), minLength,
                          nextBufferIndex + 8))
         else Next (unat payloadLength7, minLength, nextBufferIndex))"

text \<open>Lines 518 to 530: the masking key. It yields the state and \<open>nextBufferIndex\<close>.\<close>

definition readDataFrameHeader_key ::
  "connection \<Rightarrow> buffer \<Rightarrow> buffer \<Rightarrow> nat \<Rightarrow> nat \<Rightarrow> (connection \<times> nat) flow" where
  "readDataFrameHeader_key st rnd buffer minLength nextBufferIndex =
     (if isMasked st then
        (let minLength = minLength + MASKING_KEY_SIZE
         in if length buffer < minLength
            then Return (dropConnection st rnd 1002 ''ERR_MASKING_KEY_MISSING'' None)
            else Next (st\<lparr>maskingKey :=
                         Some (take MASKING_KEY_SIZE (drop nextBufferIndex buffer))\<rparr>,
                       nextBufferIndex + MASKING_KEY_SIZE))
      else Next (st, nextBufferIndex))"

text \<open>
  Lines 466 to 530 as a whole. Falling through yields the state, \<open>opCode\<close>,
  \<open>payloadLength\<close> and \<open>nextBufferIndex\<close>.
\<close>

definition readDataFrameHeader_fields ::
  "connection \<Rightarrow> buffer \<Rightarrow> buffer \<Rightarrow> (connection \<times> byte \<times> nat \<times> nat) flow" where
  "readDataFrameHeader_fields st rnd buffer =
     andThen (readDataFrameHeader_byte0 st rnd buffer) (\<lambda>(st, opCode).
     andThen (readDataFrameHeader_byte1 st rnd buffer) (\<lambda>(st, payloadLength7).
     andThen (readDataFrameHeader_length st rnd buffer payloadLength7)
       (\<lambda>(payloadLength, minLength, nextBufferIndex).
     andThen (readDataFrameHeader_key st rnd buffer minLength nextBufferIndex)
       (\<lambda>(st, nextBufferIndex).
     Next (st, opCode, payloadLength, nextBufferIndex)))))"

text \<open>Lines 532 to 551: the \<open>switch (opCode)\<close>.\<close>

definition readDataFrameHeader_opcode :: "connection \<Rightarrow> buffer \<Rightarrow> byte \<Rightarrow> connection flow" where
  "readDataFrameHeader_opcode st rnd opCode =
     (if opCode = OPCODE_CONNECTION_CLOSE then
        Return (dropConnection st rnd 1000 ''CLOSED_BY_PEER'' None)
      else if opCode = OPCODE_CONTINUATION_FRAME then
        (if \<not> isReadingMessage st
         then Return (dropConnection st rnd 1002 ''ERR_BAD_CONTINUE_OPCODE'' None)
         else Next st)
      else if opCode = OPCODE_TEXT_FRAME \<or> opCode = OPCODE_BINARY_FRAME then
        (if isReadingMessage st
         then Return (dropConnection st rnd 1002 ''ERR_BAD_DATA_OPCODE'' None)
         else Next (st\<lparr>isReadingMessage := True, payloadOpCode := opCode, payloadBuffers := []\<rparr>))
      else if opCode = OPCODE_PING then Return (sendPong st)
      else if opCode = OPCODE_PONG then Return st
      else Return (dropConnection st rnd 1003 ''ERR_UNSUPPORTED_OPCODE'' None))"

text \<open>
  The unmasking loop of \<open>readDataFramePayload\<close>, over the first \<open>length\<close> octets of the
  chunk: it returns the unmasked octets and the advanced \<open>maskingIndex\<close>.
\<close>

fun unmaskLoop :: "buffer \<Rightarrow> nat \<Rightarrow> buffer \<Rightarrow> buffer \<times> nat" where
  "unmaskLoop key mi [] = ([], mi)"
| "unmaskLoop key mi (b # bs) =
     (case unmaskLoop key ((mi + 1) mod MASKING_KEY_SIZE) bs of
        (bs', mi') \<Rightarrow> ((b XOR keyAt key mi) # bs', mi'))"

text \<open>
  Lines 564 to 569. Reading \<open>maskingKey[maskingIndex]\<close> while \<open>maskingKey\<close> is
  \<open>null\<close> throws a \<open>TypeError\<close>; the loop body runs only when there is an octet to unmask.
\<close>

definition readDataFramePayload_unmask :: "connection \<Rightarrow> buffer \<Rightarrow> exn + (connection \<times> buffer)" where
  "readDataFramePayload_unmask st payload =
     (if isMasked st \<and> payload \<noteq> [] then
        (case maskingKey st of
           None \<Rightarrow> Inl TypeError
         | Some key \<Rightarrow>
             (case unmaskLoop key (maskingIndex st) payload of
                (payload', mi) \<Rightarrow> Inr (st\<lparr>maskingIndex := mi\<rparr>, payload')))
      else Inr (st, payload))"

definition onFrameComplete :: "connection \<Rightarrow> connection" where
  "onFrameComplete st =
     (let st = st\<lparr>isReadingMessage := False\<rparr>;
          call =
            (if payloadOpCode st = OPCODE_BINARY_FRAME then
               (case onBinaryMessage st of
                  None \<Rightarrow> None
                | Some cb \<Rightarrow> Some (CallBinary cb (concat (payloadBuffers st))))
             else if payloadOpCode st = OPCODE_TEXT_FRAME then
               (case onTextMessage st of
                  None \<Rightarrow> None
                | Some cb \<Rightarrow> Some (CallText cb (bufferToString (concat (payloadBuffers st)))))
             else None);
          st = st\<lparr>payloadBuffers := []\<rparr>
      in case call of None \<Rightarrow> st | Some c \<Rightarrow> emit c st)"

lemma andThen_Next:
  "andThen m f = Next y \<longleftrightarrow> (\<exists>x. m = Next x \<and> f x = Next y)"
  by (cases m) simp_all

lemma readDataFrameHeader_length_next:
  assumes "readDataFrameHeader_length st rnd buffer payloadLength7 = Next (payloadLength, minLength, nextBufferIndex)"
  shows "nextBufferIndex = minLength"
    and "minLength = (if payloadLength7 = 126 then 4 else if payloadLength7 = 127 then 10 else 2)"
    and "payloadLength7 = 126 \<or> payloadLength7 = 127 \<Longrightarrow> minLength \<le> length buffer"
  using assms
  by (auto simp: readDataFrameHeader_length_def Let_def split: if_splits)

lemma readDataFrameHeader_key_next:
  assumes "readDataFrameHeader_key st rnd buffer minLength nextBufferIndex = Next (st', nextBufferIndex')"
  shows "nextBufferIndex' = nextBufferIndex + (if isMasked st then 4 else 0)"
    and "isMasked st \<Longrightarrow> minLength + 4 \<le> length buffer"
  using assms
  by (auto simp: readDataFrameHeader_key_def Let_def MASKING_KEY_SIZE_def split: if_splits)

lemma readDataFrameHeader_byte0_next:
  assumes "readDataFrameHeader_byte0 st rnd buffer = Next (st', opCode)"
  shows "2 \<le> length buffer"
  using assms
  by (auto simp: readDataFrameHeader_byte0_def Let_def split: if_splits)

lemma readDataFrameHeader_fields_next:
  assumes "readDataFrameHeader_fields st rnd buffer = Next (st', opCode, payloadLength, nextBufferIndex)"
  shows "2 \<le> nextBufferIndex \<and> nextBufferIndex \<le> length buffer"
proof -
  from assms obtain st0 op0 st1 pl7 pl ml nbi st2 nbi' where
    b0: "readDataFrameHeader_byte0 st rnd buffer = Next (st0, op0)" and
    b1: "readDataFrameHeader_byte1 st0 rnd buffer = Next (st1, pl7)" and
    ln: "readDataFrameHeader_length st1 rnd buffer pl7 = Next (pl, ml, nbi)" and
    ky: "readDataFrameHeader_key st1 rnd buffer ml nbi = Next (st2, nbi')" and
    eq: "nextBufferIndex = nbi'"
    by (auto simp: readDataFrameHeader_fields_def andThen_Next)
  from readDataFrameHeader_byte0_next [OF b0] have "2 \<le> length buffer" .
  with readDataFrameHeader_length_next [OF ln] readDataFrameHeader_key_next [OF ky] eq
  show ?thesis by (auto split: if_splits)
qed

function readDataFrameHeader :: "connection \<Rightarrow> buffer \<Rightarrow> buffer \<Rightarrow> exn + connection"
  and readDataFramePayload :: "connection \<Rightarrow> buffer \<Rightarrow> buffer \<Rightarrow> exn + connection"
where
  "readDataFrameHeader st rnd buffer =
     (case readDataFrameHeader_fields st rnd buffer of
        Return st' \<Rightarrow> Inr st'
      | Next (st, opCode, payloadLength, nextBufferIndex) \<Rightarrow>
          (case readDataFrameHeader_opcode st rnd opCode of
             Return st' \<Rightarrow> Inr st'
           | Next st \<Rightarrow>
               readDataFramePayload
                 (st\<lparr>maskingIndex := 0, remainingLength := payloadLength\<rparr>)
                 rnd (drop nextBufferIndex buffer)))"
| "readDataFramePayload st rnd buffer =
     (let byteLength = length buffer;
          len = min byteLength (remainingLength st)
      in case readDataFramePayload_unmask st (take len buffer) of
           Inl e \<Rightarrow> Inl e
         | Inr (st, payload) \<Rightarrow>
             (let st = st\<lparr>payloadBuffers := payloadBuffers st @ [payload]\<rparr>;
                  st = st\<lparr>remainingLength := toNumber (remainingLength st - len)\<rparr>
              in if remainingLength st = 0 then
                   (let st = (if isFinSet st then onFrameComplete (st\<lparr>maskingKey := None\<rparr>) else st)
                    in if byteLength > len
                       then readDataFrameHeader st rnd (drop len buffer)
                       else Inr st)
                 else Inr st))"
  by pat_completeness auto
termination
proof (relation "measure (\<lambda>x. case x of
          Inl (st, rnd, buffer) \<Rightarrow> 2 * length buffer + 1
        | Inr (st, rnd, buffer) \<Rightarrow> 2 * length buffer + 2)", goal_cases)
  case 1
  show ?case by simp
next
  case (2 st rnd buffer x2 st' y opCode z payloadLength nextBufferIndex st'')
  then show ?case
    using readDataFrameHeader_fields_next [of st rnd buffer st' opCode payloadLength nextBufferIndex]
    by auto
next
  case 3
  then show ?case by simp
qed

declare readDataFrameHeader.simps [simp del] readDataFramePayload.simps [simp del]

definition onData :: "connection \<Rightarrow> nat \<Rightarrow> buffer \<Rightarrow> buffer \<Rightarrow> exn + connection" where
  "onData st now rnd buffer =
     (let st = st\<lparr>lastSyncDate := now\<rparr>;
          st = (case onSync st of None \<Rightarrow> st | Some cb \<Rightarrow> emit (CallSync cb (lastSyncDate st)) st)
      in if remainingLength st = 0
         then readDataFrameHeader st rnd buffer
         else readDataFramePayload st rnd buffer)"

subsection \<open>The public interface and the socket's events\<close>

definition end_connection :: "connection \<Rightarrow> buffer \<Rightarrow> connection" where
  "end_connection st rnd = dropConnection st rnd 1000 ''CLOSED_BY_SELF'' None"

definition setOnTextMessage :: "connection \<Rightarrow> callback option \<Rightarrow> connection" where
  "setOnTextMessage st it = st\<lparr>onTextMessage := it\<rparr>"

definition setOnBinaryMessage :: "connection \<Rightarrow> callback option \<Rightarrow> connection" where
  "setOnBinaryMessage st it = st\<lparr>onBinaryMessage := it\<rparr>"

definition setOnSync :: "connection \<Rightarrow> callback option \<Rightarrow> connection" where
  "setOnSync st it = st\<lparr>onSync := it\<rparr>"

definition setOnEnd :: "connection \<Rightarrow> callback option \<Rightarrow> connection" where
  "setOnEnd st it = st\<lparr>onEnd := it\<rparr>"

definition isOpen :: "connection \<Rightarrow> bool" where
  "isOpen st = isAlive st"

definition getLastSyncDate :: "connection \<Rightarrow> nat" where
  "getLastSyncDate st = lastSyncDate st"

text \<open>The listeners the constructor installs for the socket's other events.\<close>

definition socketOnEnd :: "connection \<Rightarrow> buffer \<Rightarrow> connection" where
  "socketOnEnd st rnd = dropConnection st rnd 1000 ''CONNECTION_CLOSED'' None"

definition socketOnClose :: "connection \<Rightarrow> buffer \<Rightarrow> connection" where
  "socketOnClose st rnd = dropConnection st rnd 1000 ''CONNECTION_CLOSED'' None"

definition socketOnError :: "connection \<Rightarrow> buffer \<Rightarrow> string \<Rightarrow> connection" where
  "socketOnError st rnd error = dropConnection st rnd 1011 ''NETWORK_ERROR'' (Some error)"

definition socketOnTimeout :: "connection \<Rightarrow> buffer \<Rightarrow> connection" where
  "socketOnTimeout st rnd = dropConnection st rnd 1008 ''TIMEOUT'' None"

text \<open>
  An execution of a connection is a sequence of inputs: events of its socket and calls of
  its public interface by the host. Each input comes with the octets the random source
  would hand out while it is handled. An exception that escapes a listener ends the
  execution.
\<close>

datatype input =
    Data nat buffer
  | SocketEnded
  | SocketClosed
  | SocketFailed string
  | SocketTimedOut
  | EndCalled
  | SendTextMessage string
  | SendBinaryMessage buffer
  | SendPing
  | SetOnTextMessage "callback option"
  | SetOnBinaryMessage "callback option"
  | SetOnSync "callback option"
  | SetOnEnd "callback option"

fun step :: "connection \<Rightarrow> buffer \<times> input \<Rightarrow> exn + connection" where
  "step st (rnd, Data now buffer) = onData st now rnd buffer"
| "step st (rnd, SocketEnded) = Inr (socketOnEnd st rnd)"
| "step st (rnd, SocketClosed) = Inr (socketOnClose st rnd)"
| "step st (rnd, SocketFailed error) = Inr (socketOnError st rnd error)"
| "step st (rnd, SocketTimedOut) = Inr (socketOnTimeout st rnd)"
| "step st (rnd, EndCalled) = Inr (end_connection st rnd)"
| "step st (rnd, SendTextMessage string) = Inr (sendTextMessage st rnd string)"
| "step st (rnd, SendBinaryMessage buffer) = Inr (sendBinaryMessage st rnd buffer)"
| "step st (rnd, SendPing) = Inr (sendPing st)"
| "step st (rnd, SetOnTextMessage it) = Inr (setOnTextMessage st it)"
| "step st (rnd, SetOnBinaryMessage it) = Inr (setOnBinaryMessage st it)"
| "step st (rnd, SetOnSync it) = Inr (setOnSync st it)"
| "step st (rnd, SetOnEnd it) = Inr (setOnEnd st it)"

fun run :: "connection \<Rightarrow> (buffer \<times> input) list \<Rightarrow> exn + connection" where
  "run st [] = Inr st"
| "run st (i # is) = (case step st i of Inl e \<Rightarrow> Inl e | Inr st' \<Rightarrow> run st' is)"

section \<open>The handshake: where a client connects\<close>

text \<open>
  \<open>createClientConnection\<close> takes the components of \<open>new URL(url)\<close> and opens the
  transport with \<open>(isHttps ? Tls : Net).connect({host: hostname, port: inferredPort})\<close>.
  The fields of the parsed URL are inputs here; \<open>port\<close> is the empty string when the URL
  names no port, and a string of decimal digits otherwise.
\<close>

record parsedURL =
  protocol :: string
  host :: string
  hostname :: string
  port :: string
  pathname :: string
  search :: string

datatype transport = Net | Tls

text \<open>\<open>Number(port)\<close> on a string of decimal digits.\<close>

definition stringToNumber :: "string \<Rightarrow> nat" where
  "stringToNumber s = foldl (\<lambda>acc c. acc * 10 + (of_char c - 48)) 0 s"

definition isHttps :: "parsedURL \<Rightarrow> bool" where
  "isHttps url = (protocol url = ''https:'')"

definition inferredPort :: "parsedURL \<Rightarrow> nat" where
  "inferredPort url =
     (if port url \<noteq> [] then stringToNumber (port url)
      else if isHttps url then 433
      else 80)"

definition createClientConnection_connect :: "parsedURL \<Rightarrow> transport \<times> string \<times> nat" where
  "createClientConnection_connect url =
     ((if isHttps url then Tls else Net), hostname url, inferredPort url)"


lemma byte0_append:
  assumes "readDataFrameHeader_byte0 st rnd buffer = Next x"
  shows "readDataFrameHeader_byte0 st rnd' (buffer @ rest) = Next x"
  using assms
  by (auto simp: readDataFrameHeader_byte0_def Let_def nth_append split: if_splits)

lemma byte1_append:
  assumes "readDataFrameHeader_byte1 st rnd buffer = Next x" and "2 \<le> length buffer"
  shows "readDataFrameHeader_byte1 st rnd' (buffer @ rest) = Next x"
  using assms
  by (auto simp: readDataFrameHeader_byte1_def Let_def nth_append split: if_splits)

lemma readUInt16BE_append:
  "off + 2 \<le> length b \<Longrightarrow> readUInt16BE (b @ rest) off = readUInt16BE b off"
  by (simp add: readUInt16BE_def nth_append)

lemma readBigUInt64BE_append:
  "off + 8 \<le> length b \<Longrightarrow> readBigUInt64BE (b @ rest) off = readBigUInt64BE b off"
  by (simp add: readBigUInt64BE_def)

lemma length_append:
  assumes "readDataFrameHeader_length st rnd buffer c = Next x"
  shows "readDataFrameHeader_length st rnd' (buffer @ rest) c = Next x"
  using assms
  by (auto simp: readDataFrameHeader_length_def Let_def readUInt16BE_append readBigUInt64BE_append
      split: if_splits)

lemma key_append:
  assumes "readDataFrameHeader_key st rnd buffer ml nbi = Next x" and "nbi = ml"
  shows "readDataFrameHeader_key st rnd' (buffer @ rest) ml nbi = Next x"
  using assms
  by (auto simp: readDataFrameHeader_key_def Let_def MASKING_KEY_SIZE_def split: if_splits)

lemma fields_append:
  assumes "readDataFrameHeader_fields st rnd buffer = Next x"
  shows "readDataFrameHeader_fields st rnd' (buffer @ rest) = Next x"
proof -
  from assms obtain st0 op0 st1 pl7 pl ml nbi y where
    b0: "readDataFrameHeader_byte0 st rnd buffer = Next (st0, op0)" and
    b1: "readDataFrameHeader_byte1 st0 rnd buffer = Next (st1, pl7)" and
    ln: "readDataFrameHeader_length st1 rnd buffer pl7 = Next (pl, ml, nbi)" and
    ky: "readDataFrameHeader_key st1 rnd buffer ml nbi = Next y" and
    eq: "x = (fst y, op0, pl, snd y)"
    by (auto simp: readDataFrameHeader_fields_def andThen_Next)
  note len2 = readDataFrameHeader_byte0_next [OF b0]
  note nbi = readDataFrameHeader_length_next(1) [OF ln]
  show ?thesis
    using byte0_append [OF b0, of rnd' rest] byte1_append [OF b1 len2, of rnd' rest]
      length_append [OF ln, of rnd' rest] key_append [OF ky nbi, of rnd' rest] eq
    by (cases y) (simp add: readDataFrameHeader_fields_def)
qed


lemmas opcode_defs =
  OPCODE_CONTINUATION_FRAME_def OPCODE_TEXT_FRAME_def OPCODE_BINARY_FRAME_def
  OPCODE_CONNECTION_CLOSE_def OPCODE_PING_def OPCODE_PONG_def

text \<open>What the termination routine appends to the record of effects.\<close>

definition closeSequence :: "connection \<Rightarrow> buffer \<Rightarrow> nat \<Rightarrow> string \<Rightarrow> string option \<Rightarrow> effect list" where
  "closeSequence st rnd statusCode appCode error =
     [SocketWrite (createCloseFrame rnd statusCode (toMaskOwnMessages st)), SocketEnd]
     @ (case onEnd st of None \<Rightarrow> [] | Some cb \<Rightarrow> [CallEnd cb appCode statusCode error])"

lemma dropConnection_dead: "\<not> isAlive st \<Longrightarrow> dropConnection st rnd sc ac err = st"
  by (simp add: dropConnection_def)

lemma dropConnection_alive:
  "isAlive st \<Longrightarrow> dropConnection st rnd sc ac err =
     st\<lparr>isAlive := False, effects := effects st @ closeSequence st rnd sc ac err\<rparr>"
  by (simp add: dropConnection_def closeSequence_def emit_def Let_def split: option.splits)

lemma dropConnection_eq:
  "dropConnection st rnd sc ac err =
     st\<lparr>isAlive := False,
        effects := effects st @ (if isAlive st then closeSequence st rnd sc ac err else [])\<rparr>"
  by (cases "isAlive st") (simp_all add: dropConnection_alive dropConnection_dead)

text \<open>Taking the header blocks apart.\<close>

lemma fields_NextE:
  assumes "readDataFrameHeader_fields st rnd buffer = Next (st', opCode, payloadLength, nextBufferIndex)"
  obtains st0 st1 pl7 ml nbi where
    "readDataFrameHeader_byte0 st rnd buffer = Next (st0, opCode)"
    "readDataFrameHeader_byte1 st0 rnd buffer = Next (st1, pl7)"
    "readDataFrameHeader_length st1 rnd buffer pl7 = Next (payloadLength, ml, nbi)"
    "readDataFrameHeader_key st1 rnd buffer ml nbi = Next (st', nextBufferIndex)"
  using assms
  by (auto simp: readDataFrameHeader_fields_def andThen_Next)

lemma andThen_Return:
  "andThen m f = Return s \<longleftrightarrow> m = Return s \<or> (\<exists>x. m = Next x \<and> f x = Return s)"
  by (cases m) simp_all

lemma fields_ReturnE:
  assumes "readDataFrameHeader_fields st rnd buffer = Return st'"
  obtains
    (byte0) "readDataFrameHeader_byte0 st rnd buffer = Return st'"
  | (byte1) st0 opCode where
      "readDataFrameHeader_byte0 st rnd buffer = Next (st0, opCode)"
      "readDataFrameHeader_byte1 st0 rnd buffer = Return st'"
  | (len) st0 opCode st1 pl7 where
      "readDataFrameHeader_byte0 st rnd buffer = Next (st0, opCode)"
      "readDataFrameHeader_byte1 st0 rnd buffer = Next (st1, pl7)"
      "readDataFrameHeader_length st1 rnd buffer pl7 = Return st'"
  | (key) st0 opCode st1 pl7 pl ml nbi where
      "readDataFrameHeader_byte0 st rnd buffer = Next (st0, opCode)"
      "readDataFrameHeader_byte1 st0 rnd buffer = Next (st1, pl7)"
      "readDataFrameHeader_length st1 rnd buffer pl7 = Next (pl, ml, nbi)"
      "readDataFrameHeader_key st1 rnd buffer ml nbi = Return st'"
  using assms
  by (auto simp: readDataFrameHeader_fields_def andThen_Return)

lemma byte0_next_state:
  assumes "readDataFrameHeader_byte0 st rnd buffer = Next (st0, opCode)"
  shows "st0 = st\<lparr>isFinSet := (buffer ! 0 AND 0x80 \<noteq> 0)\<rparr>"
    and "opCode = buffer ! 0 AND 0x0F"
  using assms
  by (auto simp: readDataFrameHeader_byte0_def Let_def split: if_splits)

lemma byte1_next_state:
  assumes "readDataFrameHeader_byte1 st rnd buffer = Next (st1, pl7)"
  shows "st1 = st\<lparr>isMasked := (buffer ! 1 AND 0x80 \<noteq> 0)\<rparr>"
    and "pl7 = buffer ! 1 AND 0x7F"
    and "isPeerMaskingRequired st \<Longrightarrow> buffer ! 1 AND 0x80 \<noteq> 0"
  using assms
  by (auto simp: readDataFrameHeader_byte1_def Let_def split: if_splits)

lemma key_next_state:
  assumes "readDataFrameHeader_key st rnd buffer ml nbi = Next (st2, nbi')"
  shows "st2 = (if isMasked st then st\<lparr>maskingKey := Some (take 4 (drop nbi buffer))\<rparr> else st)"
  using assms
  by (auto simp: readDataFrameHeader_key_def Let_def MASKING_KEY_SIZE_def split: if_splits)

lemma fields_next_state:
  assumes "readDataFrameHeader_fields st rnd buffer = Next (st1, opCode, payloadLength, nextBufferIndex)"
  shows "st1 = st\<lparr>isFinSet := (buffer ! 0 AND 0x80 \<noteq> 0), isMasked := (buffer ! 1 AND 0x80 \<noteq> 0),
                   maskingKey := maskingKey st1\<rparr>"
    and "opCode = buffer ! 0 AND 0x0F"
    and "isMasked st1 \<Longrightarrow> maskingKey st1 \<noteq> None"
proof -
  from assms obtain st0 st' pl7 ml nbi where
    b0: "readDataFrameHeader_byte0 st rnd buffer = Next (st0, opCode)" and
    b1: "readDataFrameHeader_byte1 st0 rnd buffer = Next (st', pl7)" and
    ky: "readDataFrameHeader_key st' rnd buffer ml nbi = Next (st1, nextBufferIndex)"
    by (rule fields_NextE)
  note s0 = byte0_next_state [OF b0] and s1 = byte1_next_state [OF b1] and s2 = key_next_state [OF ky]
  show "st1 = st\<lparr>isFinSet := (buffer ! 0 AND 0x80 \<noteq> 0), isMasked := (buffer ! 1 AND 0x80 \<noteq> 0),
                   maskingKey := maskingKey st1\<rparr>"
    by (simp add: s2 s1(1) s0(1))
  show "opCode = buffer ! 0 AND 0x0F" by (rule s0(2))
  show "isMasked st1 \<Longrightarrow> maskingKey st1 \<noteq> None"
    by (simp add: s2 s1(1) s0(1) split: if_splits)
qed

text \<open>The two parser functions, one step at a time.\<close>

lemma readDataFrameHeader_return:
  "readDataFrameHeader_fields st rnd buffer = Return st' \<Longrightarrow>
     readDataFrameHeader st rnd buffer = Inr st'"
  by (subst readDataFrameHeader.simps) simp

lemma readDataFrameHeader_opcode_return:
  "readDataFrameHeader_fields st rnd buffer = Next (st1, opCode, payloadLength, nextBufferIndex) \<Longrightarrow>
   readDataFrameHeader_opcode st1 rnd opCode = Return st' \<Longrightarrow>
     readDataFrameHeader st rnd buffer = Inr st'"
  by (subst readDataFrameHeader.simps) simp

lemma readDataFrameHeader_next:
  "readDataFrameHeader_fields st rnd buffer = Next (st1, opCode, payloadLength, nextBufferIndex) \<Longrightarrow>
   readDataFrameHeader_opcode st1 rnd opCode = Next st2 \<Longrightarrow>
     readDataFrameHeader st rnd buffer =
       readDataFramePayload (st2\<lparr>maskingIndex := 0, remainingLength := payloadLength\<rparr>) rnd
         (drop nextBufferIndex buffer)"
  by (subst readDataFrameHeader.simps) simp

text \<open>
  What \<open>readDataFramePayload\<close> does before it hands the rest of the chunk back to the header
  parser: unmask, store, count down, complete.
\<close>

definition consume :: "connection \<Rightarrow> buffer \<Rightarrow> exn + connection" where
  "consume st buffer =
     (let len = min (length buffer) (remainingLength st)
      in case readDataFramePayload_unmask st (take len buffer) of
           Inl e \<Rightarrow> Inl e
         | Inr (st, payload) \<Rightarrow>
             (let st = st\<lparr>payloadBuffers := payloadBuffers st @ [payload]\<rparr>;
                  st = st\<lparr>remainingLength := toNumber (remainingLength st - len)\<rparr>
              in if remainingLength st = 0 \<and> isFinSet st
                 then Inr (onFrameComplete (st\<lparr>maskingKey := None\<rparr>))
                 else Inr st))"

lemma unmask_remainingLength:
  "readDataFramePayload_unmask st p = Inr (st', p') \<Longrightarrow> remainingLength st' = remainingLength st"
  by (auto simp: readDataFramePayload_unmask_def split: if_splits option.splits prod.splits)

lemma onFrameComplete_remainingLength [simp]:
  "remainingLength (onFrameComplete st) = remainingLength st"
  by (simp add: onFrameComplete_def Let_def emit_def split: option.splits)

lemma readDataFramePayload_consume:
  "readDataFramePayload st rnd buffer =
     (case consume st buffer of
        Inl e \<Rightarrow> Inl e
      | Inr st' \<Rightarrow>
          if remainingLength st' = 0 \<and> remainingLength st < length buffer
          then readDataFrameHeader st' rnd (drop (remainingLength st) buffer)
          else Inr st')"
  apply (subst readDataFramePayload.simps)
  apply (auto simp: consume_def Let_def min_def dest: unmask_remainingLength split: sum.splits prod.splits)
  done

text \<open>The masked text frame of RFC 6455, section 5.7, carrying \<open>Hello\<close>.\<close>

abbreviation helloFrame :: buffer where
  "helloFrame \<equiv> [0x81, 0x85, 0x37, 0xfa, 0x21, 0x3d, 0x7f, 0x9f, 0x4d, 0x51, 0x58]"

abbreviation helloKey :: buffer where
  "helloKey \<equiv> [0x37, 0xfa, 0x21, 0x3d]"

abbreviation helloMasked :: buffer where
  "helloMasked \<equiv> [0x7f, 0x9f, 0x4d, 0x51, 0x58]"

lemma hello_fields:
  "readDataFrameHeader_fields st rnd (helloFrame @ rest) =
     Next (st\<lparr>isFinSet := True, isMasked := True, maskingKey := Some helloKey\<rparr>,
           OPCODE_TEXT_FRAME, 5, 6)"
  by (simp add: readDataFrameHeader_fields_def readDataFrameHeader_byte0_def
      readDataFrameHeader_byte1_def readDataFrameHeader_length_def readDataFrameHeader_key_def
      Let_def MASKING_KEY_SIZE_def opcode_defs)

lemma hello_header:
  assumes "\<not> isReadingMessage st"
  shows "readDataFrameHeader st rnd (helloFrame @ rest) =
     readDataFramePayload
       (st\<lparr>isFinSet := True, isMasked := True, maskingKey := Some helloKey,
            isReadingMessage := True, payloadOpCode := OPCODE_TEXT_FRAME, payloadBuffers := [],
            maskingIndex := 0, remainingLength := 5\<rparr>)
       rnd (helloMasked @ rest)"
  using assms hello_fields [of st rnd rest]
  by (subst readDataFrameHeader.simps) (simp add: readDataFrameHeader_opcode_def opcode_defs)

lemma hello_unmask:
  "unmaskLoop helloKey 0 helloMasked = ([0x48, 0x65, 0x6c, 0x6c, 0x6f], 1)"
  by code_simp

lemma hello_string: "bufferToString [0x48, 0x65, 0x6c, 0x6c, 0x6f] = ''Hello''"
  by code_simp

lemma hello_payload:
  assumes "onTextMessage st = Some cb" and "isFinSet st" and "isMasked st"
    and "maskingKey st = Some helloKey" and "payloadOpCode st = OPCODE_TEXT_FRAME"
    and "payloadBuffers st = []" and "maskingIndex st = 0" and "remainingLength st = 5"
  shows "readDataFramePayload st rnd helloMasked =
     Inr (st\<lparr>maskingIndex := 1, payloadBuffers := [], remainingLength := 0, maskingKey := None,
            isReadingMessage := False, effects := effects st @ [CallText cb ''Hello'']\<rparr>)"
  using assms
  by (subst readDataFramePayload.simps)
     (simp add: readDataFramePayload_unmask_def hello_unmask toNumber_def onFrameComplete_def
       opcode_defs emit_def hello_string Let_def del: unmaskLoop.simps)


lemma parser_induct [case_names header payload]:
  fixes P Q :: "connection \<Rightarrow> buffer \<Rightarrow> buffer \<Rightarrow> bool"
  assumes H: "\<And>st rnd buffer.
      (\<And>st1 opCode payloadLength nextBufferIndex st2.
          readDataFrameHeader_fields st rnd buffer = Next (st1, opCode, payloadLength, nextBufferIndex) \<Longrightarrow>
          readDataFrameHeader_opcode st1 rnd opCode = Next st2 \<Longrightarrow>
          Q (st2\<lparr>maskingIndex := 0, remainingLength := payloadLength\<rparr>) rnd (drop nextBufferIndex buffer))
      \<Longrightarrow> P st rnd buffer"
    and PL: "\<And>st rnd buffer.
      (\<And>st'. consume st buffer = Inr st' \<Longrightarrow> remainingLength st' = 0 \<Longrightarrow>
          remainingLength st < length buffer \<Longrightarrow> P st' rnd (drop (remainingLength st) buffer))
      \<Longrightarrow> Q st rnd buffer"
  shows "P st rnd buffer" and "Q st rnd buffer"
proof (induction st rnd buffer and st rnd buffer rule: readDataFrameHeader_readDataFramePayload.induct)
  case (1 st rnd buffer)
  show ?case
    by (rule H) (rule 1; simp)
next
  case (2 st rnd buffer)
  show ?case
  proof (rule PL)
    fix st'
    assume c: "consume st buffer = Inr st'" and z: "remainingLength st' = 0"
      and l: "remainingLength st < length buffer"
    from c obtain su p where u: "readDataFramePayload_unmask st (take (remainingLength st) buffer) = Inr (su, p)"
      using l by (auto simp: consume_def Let_def min_def split: sum.splits)
    show "P st' rnd (drop (remainingLength st) buffer)"
      using c z l u unmask_remainingLength [OF u]
        2 [OF refl refl, of "(su, p)" su p, OF _ refl refl refl]
      by (auto simp: consume_def Let_def min_def split: if_splits)
  qed
qed

lemma toNumber_small [simp]: "n < 2 ^ 53 \<Longrightarrow> toNumber n = n"
  by (simp add: toNumber_def)

lemma toNumber_0 [simp]: "toNumber 0 = 0"
  by (simp add: toNumber_def)

lemma consume_append:
  assumes "remainingLength st \<le> length p"
  shows "consume st (p @ rest) = consume st p"
proof -
  have "min (length (p @ rest)) (remainingLength st) = remainingLength st"
    and "min (length p) (remainingLength st) = remainingLength st"
    using assms by simp_all
  then show ?thesis
    using assms unfolding consume_def by simp
qed

lemma consume_remainingLength:
  assumes "consume st b = Inr st'"
  shows "remainingLength st' = toNumber (remainingLength st - min (length b) (remainingLength st))"
  using assms
  by (auto simp: consume_def Let_def dest!: unmask_remainingLength
      split: sum.splits prod.splits if_splits)


lemma fields_next_frame:
  assumes "readDataFrameHeader_fields st rnd buffer = Next (st1, opCode, payloadLength, nextBufferIndex)"
  shows "isAlive st1 = isAlive st" and "effects st1 = effects st" and "onEnd st1 = onEnd st"
    and "toMaskOwnMessages st1 = toMaskOwnMessages st" and "isReadingMessage st1 = isReadingMessage st"
    and "payloadBuffers st1 = payloadBuffers st" and "remainingLength st1 = remainingLength st"
  by (subst fields_next_state(1) [OF assms], simp)+

lemma closeSequence_cong:
  "toMaskOwnMessages st1 = toMaskOwnMessages st \<Longrightarrow> onEnd st1 = onEnd st \<Longrightarrow>
     closeSequence st1 rnd sc ac err = closeSequence st rnd sc ac err"
  by (simp add: closeSequence_def)

lemma header_drop:
  assumes f: "readDataFrameHeader_fields st rnd buffer = Next (st1, opCode, payloadLength, nextBufferIndex)"
    and o: "readDataFrameHeader_opcode st1 rnd opCode = Return (dropConnection st1 rnd sc ac None)"
  shows "readDataFrameHeader st rnd buffer =
     Inr (st1\<lparr>isAlive := False,
              effects := effects st @ (if isAlive st then closeSequence st rnd sc ac None else [])\<rparr>)"
proof -
  note fr = fields_next_frame [OF f]
  have c: "closeSequence st1 rnd sc ac None = closeSequence st rnd sc ac None"
    by (simp add: closeSequence_def fr)
  show ?thesis
    using readDataFrameHeader_opcode_return [OF f o]
    by (simp add: dropConnection_eq c fr)
qed

text \<open>
  Claim C4. Let the header of a frame pass the checks that precede the opcode switch, leaving
  the state \<open>st1\<close> (the state before, with the frame's FIN bit, mask bit and key stored).
  A continuation frame while no message is in progress, and a text or binary frame while one
  is, make \<open>readDataFrameHeader\<close> return at once through \<open>dropConnection\<close> with status 1002
  and the kind \<open>ERR_BAD_CONTINUE_OPCODE\<close>, respectively \<open>ERR_BAD_DATA_OPCODE\<close>: a live
  connection writes the close frame, ends the socket and calls the end callback; nothing is
  stored and no message callback is called.
\<close>

theorem fragmentation_discipline:
  assumes "readDataFrameHeader_fields st rnd buffer = Next (st1, opCode, payloadLength, nextBufferIndex)"
  shows "(opCode = OPCODE_CONTINUATION_FRAME \<and> \<not> isReadingMessage st \<longrightarrow>
            readDataFrameHeader st rnd buffer =
              Inr (st1\<lparr>isAlive := False,
                       effects := effects st @
                         (if isAlive st then closeSequence st rnd 1002 ''ERR_BAD_CONTINUE_OPCODE'' None
                          else [])\<rparr>))
       \<and> ((opCode = OPCODE_TEXT_FRAME \<or> opCode = OPCODE_BINARY_FRAME) \<and> isReadingMessage st \<longrightarrow>
            readDataFrameHeader st rnd buffer =
              Inr (st1\<lparr>isAlive := False,
                       effects := effects st @
                         (if isAlive st then closeSequence st rnd 1002 ''ERR_BAD_DATA_OPCODE'' None
                          else [])\<rparr>))"
proof (intro conjI impI)
  assume "opCode = OPCODE_CONTINUATION_FRAME \<and> \<not> isReadingMessage st"
  then have "readDataFrameHeader_opcode st1 rnd opCode =
      Return (dropConnection st1 rnd 1002 ''ERR_BAD_CONTINUE_OPCODE'' None)"
    using fields_next_frame(5) [OF assms]
    by (simp add: readDataFrameHeader_opcode_def opcode_defs)
  from header_drop [OF assms this]
  show "readDataFrameHeader st rnd buffer =
      Inr (st1\<lparr>isAlive := False,
               effects := effects st @
                 (if isAlive st then closeSequence st rnd 1002 ''ERR_BAD_CONTINUE_OPCODE'' None
                  else [])\<rparr>)" .
next
  assume "(opCode = OPCODE_TEXT_FRAME \<or> opCode = OPCODE_BINARY_FRAME) \<and> isReadingMessage st"
  then have "readDataFrameHeader_opcode st1 rnd opCode =
      Return (dropConnection st1 rnd 1002 ''ERR_BAD_DATA_OPCODE'' None)"
    using fields_next_frame(5) [OF assms]
    by (auto simp: readDataFrameHeader_opcode_def opcode_defs)
  from header_drop [OF assms this]
  show "readDataFrameHeader st rnd buffer =
      Inr (st1\<lparr>isAlive := False,
               effects := effects st @
                 (if isAlive st then closeSequence st rnd 1002 ''ERR_BAD_DATA_OPCODE'' None
                  else [])\<rparr>)" .
qed

lemma fields_continuation_example:
  "readDataFrameHeader_fields st rnd [0x80, 0x80, 0, 0, 0, 0] =
     Next (st\<lparr>isFinSet := True, isMasked := True, maskingKey := Some [0, 0, 0, 0]\<rparr>,
           OPCODE_CONTINUATION_FRAME, 0, 6)"
  by (simp add: readDataFrameHeader_fields_def readDataFrameHeader_byte0_def
      readDataFrameHeader_byte1_def readDataFrameHeader_length_def readDataFrameHeader_key_def
      Let_def MASKING_KEY_SIZE_def opcode_defs)

lemma closeFrame_1002: "createCloseFrame rnd 1002 False = [0x88, 4, 0x31, 0x30, 0x30, 0x32]"
  by code_simp

theorem fragmentation_discipline_witness:
  "readDataFrameHeader (setOnEnd (WebSocketConnection True False 0) (Some 4)) [] [0x80, 0x80, 0, 0, 0, 0] =
     Inr ((WebSocketConnection True False 0)
           \<lparr>onEnd := Some 4, isAlive := False, isFinSet := True, isMasked := True,
            maskingKey := Some [0, 0, 0, 0],
            effects := [SocketWrite [0x88, 4, 0x31, 0x30, 0x30, 0x32], SocketEnd,
                        CallEnd 4 ''ERR_BAD_CONTINUE_OPCODE'' 1002 None]\<rparr>)
   \<and> readDataFrameHeader ((setOnEnd (WebSocketConnection True False 0) (Some 4))\<lparr>isReadingMessage := True\<rparr>)
        [] helloFrame =
     Inr ((WebSocketConnection True False 0)
           \<lparr>onEnd := Some 4, isAlive := False, isReadingMessage := True, isFinSet := True, isMasked := True,
            maskingKey := Some helloKey,
            effects := [SocketWrite [0x88, 4, 0x31, 0x30, 0x30, 0x32], SocketEnd,
                        CallEnd 4 ''ERR_BAD_DATA_OPCODE'' 1002 None]\<rparr>)"
proof -
  let ?s = "setOnEnd (WebSocketConnection True False 0) (Some 4)"
  let ?t = "?s\<lparr>isReadingMessage := True\<rparr>"
  have s: "isAlive ?s" "\<not> isReadingMessage ?s" "onEnd ?s = Some 4" "\<not> toMaskOwnMessages ?s" "effects ?s = []"
    and t: "isAlive ?t" "isReadingMessage ?t" "onEnd ?t = Some 4" "\<not> toMaskOwnMessages ?t" "effects ?t = []"
    by (simp_all add: setOnEnd_def WebSocketConnection_def)
  have hf: "readDataFrameHeader_fields ?t [] helloFrame =
     Next (?t\<lparr>isFinSet := True, isMasked := True, maskingKey := Some helloKey\<rparr>,
           OPCODE_TEXT_FRAME, 5, 6)"
    using hello_fields [of ?t "[]" "[]"] by simp
  have a: "readDataFrameHeader ?s [] [0x80, 0x80, 0, 0, 0, 0] =
      Inr (?s\<lparr>isFinSet := True, isMasked := True, maskingKey := Some [0, 0, 0, 0], isAlive := False,
              effects := [SocketWrite [0x88, 4, 0x31, 0x30, 0x30, 0x32], SocketEnd,
                        CallEnd 4 ''ERR_BAD_CONTINUE_OPCODE'' 1002 None]\<rparr>)"
    using fragmentation_discipline [OF fields_continuation_example, where st = ?s and rnd = "[]"] s
    by (simp add: closeSequence_def closeFrame_1002)
  have b: "readDataFrameHeader ?t [] helloFrame =
      Inr (?t\<lparr>isFinSet := True, isMasked := True, maskingKey := Some helloKey, isAlive := False,
              effects := [SocketWrite [0x88, 4, 0x31, 0x30, 0x30, 0x32], SocketEnd,
                        CallEnd 4 ''ERR_BAD_DATA_OPCODE'' 1002 None]\<rparr>)"
    using fragmentation_discipline [OF hf] t
    by (simp add: closeSequence_def closeFrame_1002)
  show ?thesis
    unfolding a b by (simp add: setOnEnd_def WebSocketConnection_def)
qed


section \<open>A single masked text frame\<close>

text \<open>
  Claim C1. A connection that expects a frame header, has no message in progress and has a
  text callback installed receives the chunk \<open>81 85 37 fa 21 3d 7f 9f 4d 51 58\<close>. It calls
  the text callback once, with \<open>Hello\<close>, after the sync callback if one is installed; it makes
  no other call, and \<open>isAlive\<close> is what it was. The masked frame passes the masking check
  of the server role.
\<close>

theorem hello_delivers_text:
  assumes "onTextMessage st = Some cb" and "remainingLength st = 0" and "\<not> isReadingMessage st"
  shows "onData st now rnd helloFrame =
     Inr (st\<lparr>lastSyncDate := now, isReadingMessage := False, isFinSet := True, isMasked := True,
              payloadOpCode := OPCODE_TEXT_FRAME, maskingKey := None, maskingIndex := 1,
              remainingLength := 0, payloadBuffers := [],
              effects := effects st
                @ (case onSync st of None \<Rightarrow> [] | Some s \<Rightarrow> [CallSync s now])
                @ [CallText cb ''Hello'']\<rparr>)"
  using assms hello_header [of _ rnd "[]"]
  by (simp add: onData_def hello_payload emit_def split: option.splits)

theorem hello_delivers_text_witness:
  "onData (setOnTextMessage (WebSocketConnection True False 0) (Some 1)) 5 [] helloFrame =
     Inr ((WebSocketConnection True False 0)
            \<lparr>onTextMessage := Some 1, lastSyncDate := 5, isFinSet := True, isMasked := True,
             payloadOpCode := OPCODE_TEXT_FRAME, maskingIndex := 1,
             effects := [CallText 1 ''Hello'']\<rparr>)
   \<and> isAlive (WebSocketConnection True False 0)
   \<and> isPeerMaskingRequired (WebSocketConnection True False 0)"
  using hello_delivers_text [of "setOnTextMessage (WebSocketConnection True False 0) (Some 1)" 1 5 "[]"]
  by (simp add: setOnTextMessage_def WebSocketConnection_def)


section \<open>Close frames\<close>

lemma closeFrame_1000: "createCloseFrame rnd 1000 False = [0x88, 4, 0x31, 0x30, 0x30, 0x30]"
  by code_simp

lemma header_close:
  assumes "readDataFrameHeader_fields st rnd header =
             Next (st1, OPCODE_CONNECTION_CLOSE, payloadLength, nextBufferIndex)"
  shows "readDataFrameHeader st rnd (header @ payload) =
           Inr (st1\<lparr>isAlive := False,
                    effects := effects st @
                      (if isAlive st then closeSequence st rnd 1000 ''CLOSED_BY_PEER'' None else [])\<rparr>)"
proof -
  have o: "readDataFrameHeader_opcode st1 rnd OPCODE_CONNECTION_CLOSE =
      Return (dropConnection st1 rnd 1000 ''CLOSED_BY_PEER'' None)"
    by (simp add: readDataFrameHeader_opcode_def)
  from header_drop [OF fields_append [OF assms] o]
  show ?thesis by simp
qed

text \<open>
  Claim C9. Let \<open>header\<close> be octets on which the header checks pass with the opcode of a
  close frame, and let any octets \<open>payload\<close> follow in the chunk. The header parser returns
  through \<open>dropConnection\<close> with status 1000 and the kind \<open>CLOSED_BY_PEER\<close>: the result is
  the same for every \<open>payload\<close>, nothing is stored in \<open>payloadBuffers\<close>, no length is
  counted down, and the end callback of a live connection receives \<open>CLOSED_BY_PEER\<close>, 1000
  and no error.
\<close>

theorem close_frame_terminates:
  assumes "readDataFrameHeader_fields st rnd header =
             Next (st1, OPCODE_CONNECTION_CLOSE, payloadLength, nextBufferIndex)"
  shows "readDataFrameHeader st rnd (header @ payload) =
           Inr (st1\<lparr>isAlive := False,
                    effects := effects st @
                      (if isAlive st then closeSequence st rnd 1000 ''CLOSED_BY_PEER'' None else [])\<rparr>)
         \<and> payloadBuffers st1 = payloadBuffers st
         \<and> remainingLength st1 = remainingLength st"
  using header_close [OF assms, of payload] fields_next_frame(6,7) [OF assms]
  by simp

lemma fields_close_example:
  "readDataFrameHeader_fields st rnd [0x88, 0x82, 0x12, 0x34, 0x56, 0x78] =
     Next (st\<lparr>isFinSet := True, isMasked := True, maskingKey := Some [0x12, 0x34, 0x56, 0x78]\<rparr>,
           OPCODE_CONNECTION_CLOSE, 2, 6)"
  by (simp add: readDataFrameHeader_fields_def readDataFrameHeader_byte0_def
      readDataFrameHeader_byte1_def readDataFrameHeader_length_def readDataFrameHeader_key_def
      Let_def MASKING_KEY_SIZE_def opcode_defs)

theorem close_frame_terminates_witness:
  "readDataFrameHeader (setOnEnd (WebSocketConnection True False 0) (Some 4)) []
       ([0x88, 0x82, 0x12, 0x34, 0x56, 0x78] @ [0x11, 0xdc]) =
     Inr ((WebSocketConnection True False 0)
           \<lparr>onEnd := Some 4, isAlive := False, isFinSet := True, isMasked := True,
            maskingKey := Some [0x12, 0x34, 0x56, 0x78],
            effects := [SocketWrite [0x88, 4, 0x31, 0x30, 0x30, 0x30], SocketEnd,
                        CallEnd 4 ''CLOSED_BY_PEER'' 1000 None]\<rparr>)"
proof -
  let ?s = "setOnEnd (WebSocketConnection True False 0) (Some 4)"
  have s: "isAlive ?s" "onEnd ?s = Some 4" "\<not> toMaskOwnMessages ?s" "effects ?s = []"
    by (simp_all add: setOnEnd_def WebSocketConnection_def)
  have a: "readDataFrameHeader ?s [] ([0x88, 0x82, 0x12, 0x34, 0x56, 0x78] @ [0x11, 0xdc]) =
      Inr (?s\<lparr>isFinSet := True, isMasked := True, maskingKey := Some [0x12, 0x34, 0x56, 0x78],
              isAlive := False,
              effects := [SocketWrite [0x88, 4, 0x31, 0x30, 0x30, 0x30], SocketEnd,
                          CallEnd 4 ''CLOSED_BY_PEER'' 1000 None]\<rparr>)"
    using close_frame_terminates [OF fields_close_example, where st = ?s and rnd = "[]"
        and payload = "[0x11, 0xdc]"] s
    by (simp add: closeSequence_def closeFrame_1000)
  show ?thesis
    unfolding a by (simp add: setOnEnd_def WebSocketConnection_def)
qed

section \<open>More than one frame in a chunk\<close>

text \<open>
  The chunk \<open>frame @ rest\<close> is handled as \<open>frame\<close> alone would be, followed by a header parse
  of \<open>rest\<close> in the state that leaves.
\<close>

definition resumesAfter :: "connection \<Rightarrow> buffer \<Rightarrow> buffer \<Rightarrow> buffer \<Rightarrow> bool" where
  "resumesAfter st rnd frame rest =
     (readDataFrameHeader st rnd (frame @ rest) =
        (case readDataFrameHeader st rnd frame of
           Inl e \<Rightarrow> Inl e
         | Inr st' \<Rightarrow> readDataFrameHeader st' rnd rest))"

lemma payload_then_rest:
  assumes "length p = remainingLength st" and "rest \<noteq> []"
  shows "readDataFramePayload st rnd (p @ rest) =
     (case readDataFramePayload st rnd p of
        Inl e \<Rightarrow> Inl e
      | Inr st' \<Rightarrow> readDataFrameHeader st' rnd rest)"
proof (cases "consume st p")
  case (Inl e)
  then show ?thesis
    using assms by (simp add: readDataFramePayload_consume consume_append)
next
  case (Inr st')
  from consume_remainingLength [OF Inr] assms have "remainingLength st' = 0" by simp
  with Inr assms show ?thesis
    by (simp add: readDataFramePayload_consume [of st rnd "p @ rest"]
        readDataFramePayload_consume [of st rnd p] consume_append)
qed


text \<open>
  Claim C6, as the code has it. Let the header of \<open>frame\<close> pass the header checks. If it is a
  data frame that the opcode switch accepts (a continuation frame while a message is in
  progress, a text or binary frame while none is), \<open>frame\<close> is exactly that header and its
  payload, and more octets \<open>rest\<close> follow in the chunk, then the parser handles the frame and
  parses \<open>rest\<close> as the next frame header. If it is a close frame, the parser returns from the
  header and the octets after it are not parsed.
\<close>

theorem data_frame_resumes:
  assumes "readDataFrameHeader_fields st rnd frame = Next (st1, opCode, payloadLength, nextBufferIndex)"
  shows "(((opCode = OPCODE_CONTINUATION_FRAME \<and> isReadingMessage st)
            \<or> ((opCode = OPCODE_TEXT_FRAME \<or> opCode = OPCODE_BINARY_FRAME) \<and> \<not> isReadingMessage st))
          \<and> length frame = nextBufferIndex + payloadLength \<and> rest \<noteq> []
          \<longrightarrow> resumesAfter st rnd frame rest)
       \<and> (opCode = OPCODE_CONNECTION_CLOSE
          \<longrightarrow> readDataFrameHeader st rnd (frame @ rest) = readDataFrameHeader st rnd frame)"
proof (intro conjI impI)
  assume a: "((opCode = OPCODE_CONTINUATION_FRAME \<and> isReadingMessage st)
            \<or> ((opCode = OPCODE_TEXT_FRAME \<or> opCode = OPCODE_BINARY_FRAME) \<and> \<not> isReadingMessage st))
          \<and> length frame = nextBufferIndex + payloadLength \<and> rest \<noteq> []"
  note fr = fields_next_frame [OF assms]
  from a fr(5) obtain st2 where o: "readDataFrameHeader_opcode st1 rnd opCode = Next st2"
    by (auto simp: readDataFrameHeader_opcode_def opcode_defs)
  let ?S = "st2\<lparr>maskingIndex := 0, remainingLength := payloadLength\<rparr>"
  from readDataFrameHeader_fields_next [OF assms] have n: "nextBufferIndex \<le> length frame" by simp
  have 1: "readDataFrameHeader st rnd (frame @ rest) =
      readDataFramePayload ?S rnd (drop nextBufferIndex frame @ rest)"
    using readDataFrameHeader_next [OF fields_append [OF assms] o, of rest] n by simp
  have 2: "readDataFrameHeader st rnd frame = readDataFramePayload ?S rnd (drop nextBufferIndex frame)"
    by (rule readDataFrameHeader_next [OF assms o])
  have "length (drop nextBufferIndex frame) = remainingLength ?S"
    using a by simp
  from payload_then_rest [OF this, of rest rnd] a
  show "resumesAfter st rnd frame rest"
    by (simp add: resumesAfter_def 1 2)
next
  assume c: "opCode = OPCODE_CONNECTION_CLOSE"
  have "frame @ [] = frame" by simp
  with header_close [OF assms [unfolded c], where payload = rest]
    header_close [OF assms [unfolded c], where payload = "[]"]
  show "readDataFrameHeader st rnd (frame @ rest) = readDataFrameHeader st rnd frame"
    by simp
qed

theorem data_frame_resumes_witness:
  "resumesAfter (WebSocketConnection True False 0) [] helloFrame helloFrame
   \<and> readDataFrameHeader (WebSocketConnection True False 0) []
         ([0x88, 0x82, 0x12, 0x34, 0x56, 0x78] @ helloFrame) =
       readDataFrameHeader (WebSocketConnection True False 0) [] [0x88, 0x82, 0x12, 0x34, 0x56, 0x78]"
proof -
  let ?s = "WebSocketConnection True False 0"
  have r: "\<not> isReadingMessage ?s" by (simp add: WebSocketConnection_def)
  have hf: "readDataFrameHeader_fields ?s [] helloFrame =
     Next (?s\<lparr>isFinSet := True, isMasked := True, maskingKey := Some helloKey\<rparr>,
           OPCODE_TEXT_FRAME, 5, 6)"
    using hello_fields [of ?s "[]" "[]"] by simp
  from data_frame_resumes [OF hf, where rest = helloFrame] r
  have 1: "resumesAfter ?s [] helloFrame helloFrame" by simp
  from data_frame_resumes [OF fields_close_example, where st = ?s and rnd = "[]" and rest = helloFrame]
  have 2: "readDataFrameHeader ?s [] ([0x88, 0x82, 0x12, 0x34, 0x56, 0x78] @ helloFrame) =
       readDataFrameHeader ?s [] [0x88, 0x82, 0x12, 0x34, 0x56, 0x78]" by simp
  from 1 2 show ?thesis by (rule conjI)
qed

text \<open>
  The claim as the specification states it fails for the control frames. A chunk that holds
  a ping frame and then the \<open>Hello\<close> frame is answered with a pong and nothing else: the
  \<open>Hello\<close> frame is not parsed. The same holds after a close frame.
\<close>

lemma fields_ping_example:
  "readDataFrameHeader_fields st rnd ([0x89, 0x80, 0, 0, 0, 0] @ rest) =
     Next (st\<lparr>isFinSet := True, isMasked := True, maskingKey := Some [0, 0, 0, 0]\<rparr>,
           OPCODE_PING, 0, 6)"
  by (simp add: readDataFrameHeader_fields_def readDataFrameHeader_byte0_def
      readDataFrameHeader_byte1_def readDataFrameHeader_length_def readDataFrameHeader_key_def
      Let_def MASKING_KEY_SIZE_def opcode_defs)

lemma header_ping_example:
  "readDataFrameHeader st rnd ([0x89, 0x80, 0, 0, 0, 0] @ rest) =
     Inr (st\<lparr>isFinSet := True, isMasked := True, maskingKey := Some [0, 0, 0, 0],
             effects := effects st @ [SocketWrite (frameDataPong st)]\<rparr>)"
proof -
  let ?s1 = "st\<lparr>isFinSet := True, isMasked := True, maskingKey := Some [0, 0, 0, 0]\<rparr>"
  have "readDataFrameHeader_opcode ?s1 rnd OPCODE_PING = Return (sendPong ?s1)"
    by (simp add: readDataFrameHeader_opcode_def opcode_defs)
  from readDataFrameHeader_opcode_return [OF fields_ping_example this]
  show ?thesis by (simp add: sendPong_def emit_def frameDataPong_def)
qed

lemma header_hello:
  assumes "onTextMessage st = Some cb" and "\<not> isReadingMessage st"
  shows "readDataFrameHeader st rnd helloFrame =
     Inr (st\<lparr>isReadingMessage := False, isFinSet := True, isMasked := True,
              payloadOpCode := OPCODE_TEXT_FRAME, maskingKey := None, maskingIndex := 1,
              remainingLength := 0, payloadBuffers := [],
              effects := effects st @ [CallText cb ''Hello'']\<rparr>)"
  using assms hello_header [of st rnd "[]"]
  by (simp add: hello_payload)

theorem control_frames_discard_rest:
  "\<not> resumesAfter (setOnTextMessage (WebSocketConnection True False 0) (Some 1)) []
        [0x89, 0x80, 0, 0, 0, 0] helloFrame
   \<and> \<not> resumesAfter (setOnTextMessage (WebSocketConnection True False 0) (Some 1)) []
        [0x88, 0x82, 0x12, 0x34, 0x56, 0x78] helloFrame"
proof -
  let ?s = "setOnTextMessage (WebSocketConnection True False 0) (Some 1)"
  let ?ping = "[0x89, 0x80, 0, 0, 0, 0] :: buffer"
  let ?close = "[0x88, 0x82, 0x12, 0x34, 0x56, 0x78] :: buffer"
  have s: "onTextMessage ?s = Some 1" "\<not> isReadingMessage ?s" "isAlive ?s"
    by (simp_all add: setOnTextMessage_def WebSocketConnection_def)
  let ?p = "?s\<lparr>isFinSet := True, isMasked := True, maskingKey := Some [0, 0, 0, 0],
             effects := effects ?s @ [SocketWrite (frameDataPong ?s)]\<rparr>"
  have p1: "readDataFrameHeader ?s [] (?ping @ helloFrame) = Inr ?p"
    by (rule header_ping_example)
  have p2: "readDataFrameHeader ?s [] ?ping = Inr ?p"
    using header_ping_example [of ?s "[]" "[]"] by simp
  have p3: "readDataFrameHeader ?p [] helloFrame =
      Inr (?p\<lparr>isReadingMessage := False, isFinSet := True, isMasked := True,
              payloadOpCode := OPCODE_TEXT_FRAME, maskingKey := None, maskingIndex := 1,
              remainingLength := 0, payloadBuffers := [],
              effects := effects ?p @ [CallText 1 ''Hello'']\<rparr>)"
    by (rule header_hello) (simp_all add: setOnTextMessage_def WebSocketConnection_def)
  have "effects ?p \<noteq> effects ?p @ [CallText 1 ''Hello'']" by simp
  then have ping: "\<not> resumesAfter ?s [] ?ping helloFrame"
    unfolding resumesAfter_def p1 p2 sum.case p3
    by (auto dest: arg_cong [where f = effects])
  let ?c = "?s\<lparr>isFinSet := True, isMasked := True, maskingKey := Some [0x12, 0x34, 0x56, 0x78],
             isAlive := False,
             effects := effects ?s @ closeSequence ?s [] 1000 ''CLOSED_BY_PEER'' None\<rparr>"
  have c1: "readDataFrameHeader ?s [] (?close @ helloFrame) = Inr ?c"
    using header_close [OF fields_close_example, where st = ?s and rnd = "[]" and payload = helloFrame] s by simp
  have c2: "readDataFrameHeader ?s [] ?close = Inr ?c"
    using header_close [OF fields_close_example, where st = ?s and rnd = "[]" and payload = "[]"] s by simp
  have c3: "readDataFrameHeader ?c [] helloFrame =
      Inr (?c\<lparr>isReadingMessage := False, isFinSet := True, isMasked := True,
              payloadOpCode := OPCODE_TEXT_FRAME, maskingKey := None, maskingIndex := 1,
              remainingLength := 0, payloadBuffers := [],
              effects := effects ?c @ [CallText 1 ''Hello'']\<rparr>)"
    by (rule header_hello) (simp_all add: setOnTextMessage_def WebSocketConnection_def)
  have "effects ?c \<noteq> effects ?c @ [CallText 1 ''Hello'']" by simp
  then have close: "\<not> resumesAfter ?s [] ?close helloFrame"
    unfolding resumesAfter_def c1 c2 sum.case c3
    by (auto dest: arg_cong [where f = effects])
  from ping close show ?thesis by (rule conjI)
qed


section \<open>Sending on a dead connection\<close>


section \<open>The port a client connects to\<close>

text \<open>
  Claim C8 asks for port 443 when a URL of the TLS scheme names no port. The code compares
  the protocol with \<open>https:\<close> only, and its constant for that case is 433: a URL
  \<open>https://example.com/\<close> is connected over TLS to port 433, and a URL
  \<open>wss://example.com/\<close> over plain TCP to port 80. Without a port, every other protocol
  gets port 80.
\<close>

theorem inferred_port_of_tls_url:
  "createClientConnection_connect
     \<lparr>protocol = ''https:'', host = ''example.com'', hostname = ''example.com'', port = [],
      pathname = ''/'', search = []\<rparr> = (Tls, ''example.com'', 433)
   \<and> createClientConnection_connect
     \<lparr>protocol = ''wss:'', host = ''example.com'', hostname = ''example.com'', port = [],
      pathname = ''/'', search = []\<rparr> = (Net, ''example.com'', 80)
   \<and> createClientConnection_connect
     \<lparr>protocol = ''ws:'', host = ''example.com'', hostname = ''example.com'', port = [],
      pathname = ''/'', search = []\<rparr> = (Net, ''example.com'', 80)"
  by (simp add: createClientConnection_connect_def inferredPort_def isHttps_def)

lemma inferredPort_default:
  "port url = [] \<Longrightarrow> inferredPort url = (if protocol url = ''https:'' then 433 else 80)"
  by (simp add: inferredPort_def isHttps_def)



section \<open>Lengths on the wire\<close>

lemma byte_of_nat_less: "n < m \<Longrightarrow> m \<le> 256 \<Longrightarrow> (of_nat n :: byte) < of_nat m \<or> m = 256"
  by (auto simp: word_less_nat_alt unat_of_nat)

lemma unat_byte_of_nat: "n < 256 \<Longrightarrow> unat (of_nat n :: byte) = n"
  by (simp add: unat_of_nat)

lemma low7_small:
  assumes "x < (128 :: byte)"
  shows "x AND 0x7F = x"
proof -
  have "x AND mask 7 = x" using assms by (intro less_mask_eq) simp
  then show ?thesis by (simp add: mask_eq_exp_minus_1)
qed

lemma high_small:
  assumes "x < (128 :: byte)"
  shows "x AND 0x80 = 0"
proof -
  have "x AND 0x80 = (x AND 0x7F) AND 0x80" by (simp add: low7_small [OF assms])
  also have "\<dots> = x AND (0x7F AND 0x80)" by (simp only: and.assoc)
  also have "\<dots> = 0" by simp
  finally show ?thesis .
qed

lemma or80_low7: "(x OR 0x80) AND 0x7F = x AND (0x7F :: byte)"
  by (simp add: bit.conj_disj_distrib2)

lemma or80_high: "(x OR 0x80) AND 0x80 \<noteq> (0 :: byte)"
  by (simp add: bit.conj_disj_distrib2 or_eq_0_iff)

lemma of_nat_small:
  assumes "n < 128"
  shows "(of_nat n :: byte) < 128"
  using assms by (simp add: word_less_nat_alt unat_of_nat)

lemma readUInt16BE_write:
  assumes "n < 2 ^ 16"
  shows "readUInt16BE (b0 # b1 # writeUInt16BE n @ rest) 2 = n"
proof -
  have "n div 256 < 256" using assms by simp
  then show ?thesis
    by (simp add: readUInt16BE_def writeUInt16BE_def unat_of_nat numeral_2_eq_2)
qed

lemma foldl_bigEndian:
  "foldl (\<lambda>acc x. acc * 256 + unat x) a (bigEndian k v) = a * 256 ^ k + v mod 256 ^ k"
proof (induction k arbitrary: a)
  case 0
  show ?case by simp
next
  case (Suc k)
  have "v mod (256 ^ k * 256) = 256 ^ k * (v div 256 ^ k mod 256) + v mod 256 ^ k"
    by (rule mod_mult2_eq)
  then have "v mod 256 ^ Suc k = (v div 256 ^ k) mod 256 * 256 ^ k + v mod 256 ^ k"
    by (simp add: mult.commute)
  note h = this
  let ?f = "\<lambda>acc x. acc * 256 + unat (x :: byte)"
  have "foldl ?f a (bigEndian (Suc k) v) = foldl ?f (a * 256 + v div 256 ^ k mod 256) (bigEndian k v)"
    by (simp add: unat_of_nat)
  also have "\<dots> = (a * 256 + v div 256 ^ k mod 256) * 256 ^ k + v mod 256 ^ k"
    by (rule Suc.IH)
  also have "\<dots> = a * 256 ^ Suc k + v mod 256 ^ Suc k"
    using mod_mult2_eq [of v "256 ^ k" 256] by (simp add: algebra_simps)
  finally show ?case .
qed

lemma length_bigEndian [simp]: "length (bigEndian k v) = k"
  by (induction k) simp_all

lemma readBigUInt64BE_write:
  assumes "n < 2 ^ 64"
  shows "readBigUInt64BE (b0 # b1 # writeBigUInt64BE n @ rest) 2 = n"
proof -
  have "(256 :: nat) ^ 8 = 2 ^ 64" by simp
  then have "n mod 256 ^ 8 = n" using assms by simp
  then show ?thesis
    by (simp add: readBigUInt64BE_def writeBigUInt64BE_def foldl_bigEndian numeral_2_eq_2)
qed


lemma length_block_7bit:
  "pl7 \<noteq> 126 \<Longrightarrow> pl7 \<noteq> 127 \<Longrightarrow>
     readDataFrameHeader_length st rnd buffer pl7 = Next (unat pl7, 2, 2)"
  by (simp add: readDataFrameHeader_length_def Let_def)

lemma length_block_16:
  "n < 2 ^ 16 \<Longrightarrow>
     readDataFrameHeader_length st rnd (b0 # b1 # writeUInt16BE n @ rest) 126 = Next (n, 4, 4)"
  by (simp add: readDataFrameHeader_length_def Let_def readUInt16BE_write) (simp add: writeUInt16BE_def)

lemma length_block_64:
  "n < 2 ^ 64 \<Longrightarrow>
     readDataFrameHeader_length st rnd (b0 # b1 # writeBigUInt64BE n @ rest) 127 =
       Next (toNumber n, 10, 10)"
  by (simp add: readDataFrameHeader_length_def Let_def readBigUInt64BE_write) (simp add: writeBigUInt64BE_def)

lemma fields_eval:
  assumes rsv: "b0 AND 0x40 = 0" "b0 AND 0x20 = 0" "b0 AND 0x10 = 0"
    and pol: "isPeerMaskingRequired st \<longrightarrow> b1 AND 0x80 \<noteq> 0"
    and len: "\<And>s. readDataFrameHeader_length s rnd (b0 # b1 # ext @ key @ rest) (b1 AND 0x7F) =
                Next (pl, 2 + length ext, 2 + length ext)"
    and key: "length key = (if b1 AND 0x80 \<noteq> 0 then 4 else 0)"
  shows "readDataFrameHeader_fields st rnd (b0 # b1 # ext @ key @ rest) =
     Next (st\<lparr>isFinSet := (b0 AND 0x80 \<noteq> 0), isMasked := (b1 AND 0x80 \<noteq> 0),
              maskingKey := (if b1 AND 0x80 \<noteq> 0 then Some key else maskingKey st)\<rparr>,
           b0 AND 0x0F, pl, 2 + length ext + length key)"
proof -
  let ?b = "b0 # b1 # ext @ key @ rest"
  let ?s0 = "st\<lparr>isFinSet := (b0 AND 0x80 \<noteq> 0)\<rparr>"
  let ?s1 = "?s0\<lparr>isMasked := (b1 AND 0x80 \<noteq> 0)\<rparr>"
  have b0: "readDataFrameHeader_byte0 st rnd ?b = Next (?s0, b0 AND 0x0F)"
    using rsv by (simp add: readDataFrameHeader_byte0_def Let_def)
  have b1: "readDataFrameHeader_byte1 ?s0 rnd ?b = Next (?s1, b1 AND 0x7F)"
    using pol by (auto simp: readDataFrameHeader_byte1_def Let_def)
  have ky: "readDataFrameHeader_key ?s1 rnd ?b (2 + length ext) (2 + length ext) =
      Next (?s1\<lparr>maskingKey := (if b1 AND 0x80 \<noteq> 0 then Some key else maskingKey st)\<rparr>,
            2 + length ext + length key)"
    using key by (simp add: readDataFrameHeader_key_def MASKING_KEY_SIZE_def Let_def)
  show ?thesis
    unfolding readDataFrameHeader_fields_def b0 b1 len ky andThen.simps prod.case by simp
qed


text \<open>
  The payload length on the wire as the specification words it: the smallest of the three
  forms that fits. The extension is empty, two octets or eight octets, big-endian.
\<close>

definition lengthCode :: "nat \<Rightarrow> byte" where
  "lengthCode n = (if n \<le> 125 then of_nat n else if n \<le> 65535 then 126 else 127)"

definition lengthExtension :: "nat \<Rightarrow> buffer" where
  "lengthExtension n = (if n \<le> 125 then [] else if n \<le> 65535 then bigEndian 2 n else bigEndian 8 n)"

lemma bigEndian_2: "bigEndian 2 n = writeUInt16BE n"
  by (simp add: writeUInt16BE_def numeral_2_eq_2)

lemma header_smallest_form:
  "createMessageFrame_header opCode n = (0x80 + opCode) # lengthCode n # lengthExtension n"
  by (simp add: createMessageFrame_header_def lengthCode_def lengthExtension_def bigEndian_2
      writeBigUInt64BE_def)

lemma lengthCode_small: "lengthCode n < 128"
  by (simp add: lengthCode_def of_nat_small)

lemma createMessageFrame_layout:
  "createMessageFrame rnd opCode payload toMask =
     (0x80 + opCode) # (if toMask then lengthCode (length payload) OR 0x80 else lengthCode (length payload))
       # lengthExtension (length payload)
       @ (if toMask then rnd else [])
       @ (if toMask then maskPayload rnd 0 payload else payload)"
  by (simp add: createMessageFrame_def header_smallest_form Let_def)

lemma length_block_lengthCode:
  assumes "n < 2 ^ 53"
  shows "readDataFrameHeader_length s rnd (b0 # b1 # lengthExtension n @ rest) (lengthCode n) =
     Next (n, 2 + length (lengthExtension n), 2 + length (lengthExtension n))"
proof -
  consider (small) "n \<le> 125" | (mid) "125 < n" "n \<le> 65535" | (big) "65535 < n"
    by linarith
  then show ?thesis
  proof cases
    case small
    then have u: "unat (of_nat n :: byte) = n" by (simp add: unat_byte_of_nat)
    have "(of_nat n :: byte) \<noteq> 126"
    proof
      assume "(of_nat n :: byte) = 126"
      then have "unat (of_nat n :: byte) = 126" by simp
      with u small show False by simp
    qed
    moreover have "(of_nat n :: byte) \<noteq> 127"
    proof
      assume "(of_nat n :: byte) = 127"
      then have "unat (of_nat n :: byte) = 127" by simp
      with u small show False by simp
    qed
    ultimately show ?thesis using small
      by (simp add: lengthCode_def lengthExtension_def length_block_7bit unat_byte_of_nat)
  next
    case mid
    then show ?thesis
      using length_block_16 [of n s rnd b0 b1 rest]
      by (simp add: lengthCode_def lengthExtension_def bigEndian_2) (simp add: writeUInt16BE_def)
  next
    case big
    have "n < 2 ^ 64" using assms by (rule less_trans) simp
    from length_block_64 [OF this, of s rnd b0 b1 rest] big assms show ?thesis
      by (simp add: lengthCode_def lengthExtension_def writeBigUInt64BE_def toNumber_def)
  qed
qed

lemma fields_of_frame:
  assumes op: "opCode = OPCODE_TEXT_FRAME \<or> opCode = OPCODE_BINARY_FRAME \<or> opCode = OPCODE_CONNECTION_CLOSE"
    and n: "length payload < 2 ^ 53"
    and key: "toMask \<longrightarrow> length rnd = 4"
    and pol: "isPeerMaskingRequired st \<longrightarrow> toMask"
  shows "readDataFrameHeader_fields st rnd' (createMessageFrame rnd opCode payload toMask @ rest) =
     Next (st\<lparr>isFinSet := True, isMasked := toMask,
              maskingKey := (if toMask then Some rnd else maskingKey st)\<rparr>,
           opCode, length payload,
           length (createMessageFrame_header opCode (length payload)) + (if toMask then 4 else 0))"
proof -
  let ?n = "length payload"
  let ?b0 = "0x80 + opCode"
  let ?b1 = "if toMask then lengthCode ?n OR 0x80 else lengthCode ?n"
  let ?key = "if toMask then rnd else []"
  let ?tail = "(if toMask then maskPayload rnd 0 payload else payload) @ rest"
  have b0: "?b0 AND 0x40 = 0" "?b0 AND 0x20 = 0" "?b0 AND 0x10 = 0" "?b0 AND 0x80 \<noteq> 0"
    "?b0 AND 0x0F = opCode"
    using op by (auto simp: opcode_defs)
  have b1: "?b1 AND 0x7F = lengthCode ?n" "(?b1 AND 0x80 \<noteq> 0) = toMask"
    by (simp_all add: or80_low7 or80_high low7_small high_small lengthCode_small)
  have len: "\<And>s. readDataFrameHeader_length s rnd' (?b0 # ?b1 # lengthExtension ?n @ ?key @ ?tail)
               (?b1 AND 0x7F) =
             Next (?n, 2 + length (lengthExtension ?n), 2 + length (lengthExtension ?n))"
    unfolding b1 by (rule length_block_lengthCode [OF n])
  have k: "length ?key = (if ?b1 AND 0x80 \<noteq> 0 then 4 else 0)"
    unfolding b1 using key by simp
  have pol': "isPeerMaskingRequired st \<longrightarrow> ?b1 AND 0x80 \<noteq> 0"
    unfolding b1 by (rule pol)
  from fields_eval [OF b0(1-3) pol' len k]
  show ?thesis
    unfolding b0 b1 createMessageFrame_layout header_smallest_form
    using b0(4) key by (simp split: if_splits)
qed


text \<open>
  Claim C7. \<open>createMessageFrame\<close> writes the payload length in the smallest form that fits:
  the length itself up to 125, the code 126 and two octets up to 65535, the code 127 and
  eight octets above. For the opcodes the code serializes, a payload shorter than \<open>2^53\<close>
  octets (every length a buffer can have), a four-octet key when the frame is masked, and a
  receiver whose masking policy admits the frame, the header parser reads back the opcode
  and the same length, and stops where the header ends. The parser accepts the 126 form for
  every value below \<open>2^16\<close> and the 127 form for every value below \<open>2^53\<close>, minimal or not,
  and reads the 7-bit form as it is.
\<close>

theorem length_encoding_roundtrip:
  assumes "opCode = OPCODE_TEXT_FRAME \<or> opCode = OPCODE_BINARY_FRAME \<or> opCode = OPCODE_CONNECTION_CLOSE"
    and "length payload < 2 ^ 53"
    and "toMask \<longrightarrow> length rnd = 4"
    and "isPeerMaskingRequired st \<longrightarrow> toMask"
  shows "createMessageFrame_header opCode (length payload) =
           (0x80 + opCode) # lengthCode (length payload) # lengthExtension (length payload)
       \<and> readDataFrameHeader_fields st rnd' (createMessageFrame rnd opCode payload toMask @ rest) =
           Next (st\<lparr>isFinSet := True, isMasked := toMask,
                    maskingKey := (if toMask then Some rnd else maskingKey st)\<rparr>,
                 opCode, length payload,
                 length (createMessageFrame_header opCode (length payload)) + (if toMask then 4 else 0))
       \<and> (m < 2 ^ 16 \<longrightarrow>
            readDataFrameHeader_length st rnd' (b0 # b1 # bigEndian 2 m @ rest) 126 = Next (m, 4, 4))
       \<and> (m < 2 ^ 53 \<longrightarrow>
            readDataFrameHeader_length st rnd' (b0 # b1 # bigEndian 8 m @ rest) 127 = Next (m, 10, 10))
       \<and> (pl7 \<noteq> 126 \<and> pl7 \<noteq> 127 \<longrightarrow>
            readDataFrameHeader_length st rnd' buffer pl7 = Next (unat pl7, 2, 2))"
proof (intro conjI impI)
  show "createMessageFrame_header opCode (length payload) =
           (0x80 + opCode) # lengthCode (length payload) # lengthExtension (length payload)"
    by (rule header_smallest_form)
  show "readDataFrameHeader_fields st rnd' (createMessageFrame rnd opCode payload toMask @ rest) =
           Next (st\<lparr>isFinSet := True, isMasked := toMask,
                    maskingKey := (if toMask then Some rnd else maskingKey st)\<rparr>,
                 opCode, length payload,
                 length (createMessageFrame_header opCode (length payload)) + (if toMask then 4 else 0))"
    by (rule fields_of_frame [OF assms])
  show "readDataFrameHeader_length st rnd' (b0 # b1 # bigEndian 2 m @ rest) 126 = Next (m, 4, 4)"
    if "m < 2 ^ 16"
    using length_block_16 [OF that] by (simp add: bigEndian_2)
  show "readDataFrameHeader_length st rnd' (b0 # b1 # bigEndian 8 m @ rest) 127 = Next (m, 10, 10)"
    if "m < 2 ^ 53"
  proof -
    have "m < 2 ^ 64" using that by (rule less_trans) simp
    from length_block_64 [OF this, of st rnd' b0 b1 rest] that show ?thesis
      by (simp add: writeBigUInt64BE_def toNumber_def)
  qed
  show "readDataFrameHeader_length st rnd' buffer pl7 = Next (unat pl7, 2, 2)"
    if "pl7 \<noteq> 126 \<and> pl7 \<noteq> 127"
    using that by (simp add: length_block_7bit)
qed

lemma bigEndian_8:
  "bigEndian 8 v =
     [of_nat (v div 256 ^ 7), of_nat (v div 256 ^ 6), of_nat (v div 256 ^ 5), of_nat (v div 256 ^ 4),
      of_nat (v div 256 ^ 3), of_nat (v div 256 ^ 2), of_nat (v div 256), of_nat v]"
proof -
  have "(8 :: nat) = Suc (Suc (Suc (Suc (Suc (Suc (Suc (Suc 0)))))))" by simp
  then have "bigEndian 8 v = bigEndian (Suc (Suc (Suc (Suc (Suc (Suc (Suc (Suc 0)))))))) v"
    by (rule arg_cong)
  then show ?thesis by simp
qed

lemma header_examples:
  "createMessageFrame_header OPCODE_BINARY_FRAME 125 = [0x82, 125]"
  "createMessageFrame_header OPCODE_BINARY_FRAME 126 = [0x82, 126, 0, 126]"
  "createMessageFrame_header OPCODE_BINARY_FRAME 65535 = [0x82, 126, 0xff, 0xff]"
  "createMessageFrame_header OPCODE_BINARY_FRAME 65536 = [0x82, 127, 0, 0, 0, 0, 0, 1, 0, 0]"
  by (simp_all add: createMessageFrame_header_def writeUInt16BE_def writeBigUInt64BE_def
      bigEndian_8 opcode_defs)

theorem length_encoding_roundtrip_witness:
  "createMessageFrame_header OPCODE_BINARY_FRAME (length (replicate 65536 (0 :: byte))) =
      [0x82, 127, 0, 0, 0, 0, 0, 1, 0, 0]
   \<and> readDataFrameHeader_fields (WebSocketConnection False True 0) []
        (createMessageFrame [] OPCODE_BINARY_FRAME (replicate 65536 0) False @ []) =
      Next ((WebSocketConnection False True 0)\<lparr>isFinSet := True\<rparr>, OPCODE_BINARY_FRAME, 65536, 10)
   \<and> readDataFrameHeader_length (WebSocketConnection False True 0) []
        (0x82 # 126 # bigEndian 2 125 @ []) 126 = Next (125, 4, 4)
   \<and> readDataFrameHeader_length (WebSocketConnection False True 0) []
        (0x82 # 127 # bigEndian 8 65535 @ []) 127 = Next (65535, 10, 10)
   \<and> readDataFrameHeader_length (WebSocketConnection False True 0) []
        [0x82, 125] 125 = Next (125, 2, 2)"
proof -
  let ?s = "WebSocketConnection False True 0"
  let ?p = "replicate 65536 (0 :: byte)"
  have op: "OPCODE_BINARY_FRAME = OPCODE_TEXT_FRAME \<or> OPCODE_BINARY_FRAME = OPCODE_BINARY_FRAME
      \<or> OPCODE_BINARY_FRAME = OPCODE_CONNECTION_CLOSE" by simp
  have l: "length ?p < 2 ^ 53" by simp
  have k: "False \<longrightarrow> length ([] :: buffer) = 4" by simp
  have pol: "isPeerMaskingRequired ?s \<longrightarrow> False" by (simp add: WebSocketConnection_def)
  note T = length_encoding_roundtrip [where rnd = "[]" and rnd' = "[]" and rest = "[]", OF op l k pol]
  have 1: "createMessageFrame_header OPCODE_BINARY_FRAME (length ?p) = [0x82, 127, 0, 0, 0, 0, 0, 1, 0, 0]"
    by (simp add: header_examples)
  have 2: "readDataFrameHeader_fields ?s [] (createMessageFrame [] OPCODE_BINARY_FRAME ?p False @ []) =
      Next (?s\<lparr>isFinSet := True\<rparr>, OPCODE_BINARY_FRAME, 65536, 10)"
    using T [THEN conjunct2, THEN conjunct1] unfolding 1 by (simp add: WebSocketConnection_def)
  have 3: "readDataFrameHeader_length ?s [] (0x82 # 126 # bigEndian 2 125 @ []) 126 = Next (125, 4, 4)"
    using T [where m = 125, THEN conjunct2, THEN conjunct2, THEN conjunct1] by simp
  have 4: "readDataFrameHeader_length ?s [] (0x82 # 127 # bigEndian 8 65535 @ []) 127 = Next (65535, 10, 10)"
    using T [where m = 65535, THEN conjunct2, THEN conjunct2, THEN conjunct2, THEN conjunct1] by simp
  have 5: "readDataFrameHeader_length ?s [] [0x82, 125] 125 = Next (125, 2, 2)"
    using T [where ?pl7.0 = 125 and buffer = "[0x82, 125]",
        THEN conjunct2, THEN conjunct2, THEN conjunct2, THEN conjunct2] by simp
  from 1 2 3 4 5 show ?thesis by (intro conjI)
qed


section \<open>Rounding to a double\<close>

lemma bitLength_upper: "n < 2 ^ bitLength n"
proof (induction n rule: bitLength.induct)
  case (1 n)
  show ?case
  proof (cases "n = 0")
    case True
    then show ?thesis by (simp add: bitLength.simps)
  next
    case False
    with 1 have "n div 2 < 2 ^ bitLength (n div 2)" by simp
    then have "n < 2 * 2 ^ bitLength (n div 2)" by linarith
    with False show ?thesis by (simp add: bitLength.simps [of n])
  qed
qed

lemma bitLength_lower: "0 < n \<Longrightarrow> 2 ^ (bitLength n - 1) \<le> n"
proof (induction n rule: bitLength.induct)
  case (1 n)
  show ?case
  proof (cases "n div 2 = 0")
    case True
    with 1(2) have "n = 1" by linarith
    then show ?thesis by (simp add: bitLength.simps)
  next
    case False
    with 1 have ih: "2 ^ (bitLength (n div 2) - 1) \<le> n div 2" by simp
    from False have "0 < bitLength (n div 2)" by (simp add: bitLength.simps [of "n div 2"])
    then have "bitLength n - 1 = Suc (bitLength (n div 2) - 1)"
      using 1(2) by (simp add: bitLength.simps [of n])
    with ih show ?thesis by simp
  qed
qed

lemma toNumber_ge:
  assumes "2 ^ 53 \<le> n"
  shows "2 ^ 53 \<le> toNumber n"
proof -
  define e where "e = bitLength n - 53"
  define q where "q = n div 2 ^ e"
  have pos: "0 < n" using assms by (simp add: less_le_trans [of 0 "2 ^ 53"])
  have "(2 :: nat) ^ 53 < 2 ^ bitLength n"
    using assms bitLength_upper [of n] by (rule le_less_trans)
  then have bl: "53 < bitLength n" by (rule power_less_imp_less_exp [rotated]) simp
  then have e: "bitLength n - 1 = 52 + e" by (simp add: e_def)
  from bitLength_lower [OF pos] have "2 ^ (52 + e) \<le> n" unfolding e .
  then have "2 ^ 52 * 2 ^ e \<le> n" by (simp add: power_add)
  then have "2 ^ 52 \<le> q" by (simp add: q_def less_eq_div_iff_mult_less_eq)
  then have "2 ^ 52 * 2 ^ e \<le> q * 2 ^ e" by simp
  moreover have "(2 :: nat) ^ 53 \<le> 2 ^ 52 * 2 ^ e"
  proof -
    from bl have "1 \<le> e" by (simp add: e_def)
    then have "(2 :: nat) ^ 1 \<le> 2 ^ e" by (intro power_increasing) simp_all
    then show ?thesis by simp
  qed
  ultimately have q: "2 ^ 53 \<le> q * 2 ^ e" by linarith
  have "q * 2 ^ e \<le> (q + 1) * 2 ^ e" by simp
  with q have q1: "2 ^ 53 \<le> (q + 1) * 2 ^ e" by linarith
  from assms have "\<not> n < 2 ^ 53" by simp
  then show ?thesis
    using q q1 unfolding toNumber_def Let_def e_def [symmetric] q_def [symmetric]
    by (simp only: if_False split: if_splits) auto
qed

lemma toNumber_less: "toNumber n < 2 ^ 53 \<Longrightarrow> n < 2 ^ 53"
  using toNumber_ge [of n] by (cases "n < 2 ^ 53") simp_all

lemma toNumber_exact: "toNumber n < 2 ^ 53 \<Longrightarrow> toNumber n = n"
  using toNumber_less [of n] by (simp add: toNumber_def)

lemma toNumber_eq_0: "toNumber n = 0 \<longleftrightarrow> n = 0"
proof
  assume "toNumber n = 0"
  then have "toNumber n < 2 ^ 53" by simp
  from toNumber_exact [OF this] \<open>toNumber n = 0\<close> show "n = 0" by simp
qed (simp add: toNumber_def)


section \<open>What a host can observe of a state\<close>

fun isCallSync :: "effect \<Rightarrow> bool" where
  "isCallSync (CallSync cb date) = True"
| "isCallSync e = False"

text \<open>The calls a connection has made, the calls of the sync callback left out.\<close>

definition delivered :: "effect list \<Rightarrow> effect list" where
  "delivered es = filter (\<lambda>e. \<not> isCallSync e) es"

text \<open>
  Two states are the same to an observer who ignores the time of the last chunk, the calls
  of the sync callback and the way the stored payload is cut into slices.
\<close>

definition sameObservable :: "connection \<Rightarrow> connection \<Rightarrow> bool" where
  "sameObservable s t \<longleftrightarrow>
     isPeerMaskingRequired s = isPeerMaskingRequired t \<and>
     toMaskOwnMessages s = toMaskOwnMessages t \<and>
     onTextMessage s = onTextMessage t \<and>
     onBinaryMessage s = onBinaryMessage t \<and>
     onSync s = onSync t \<and>
     onEnd s = onEnd t \<and>
     isAlive s = isAlive t \<and>
     isReadingMessage s = isReadingMessage t \<and>
     isFinSet s = isFinSet t \<and>
     isMasked s = isMasked t \<and>
     payloadOpCode s = payloadOpCode t \<and>
     maskingKey s = maskingKey t \<and>
     maskingIndex s = maskingIndex t \<and>
     remainingLength s = remainingLength t \<and>
     concat (payloadBuffers s) = concat (payloadBuffers t) \<and>
     delivered (effects s) = delivered (effects t)"

definition sameOutcome :: "exn + connection \<Rightarrow> exn + connection \<Rightarrow> bool" where
  "sameOutcome a b =
     (case a of
        Inl e \<Rightarrow> (case b of Inl e' \<Rightarrow> e = e' | Inr t \<Rightarrow> False)
      | Inr s \<Rightarrow> (case b of Inl e' \<Rightarrow> False | Inr t \<Rightarrow> sameObservable s t))"

lemma sameObservable_refl [simp]: "sameObservable s s"
  by (simp add: sameObservable_def)

lemma sameObservable_sym: "sameObservable s t \<Longrightarrow> sameObservable t s"
  by (simp add: sameObservable_def)

lemma sameObservable_trans: "sameObservable s t \<Longrightarrow> sameObservable t u \<Longrightarrow> sameObservable s u"
  by (simp add: sameObservable_def)

lemma sameOutcome_refl [simp]: "sameOutcome a a"
  by (simp add: sameOutcome_def split: sum.splits)

lemma sameOutcome_sym: "sameOutcome a b \<Longrightarrow> sameOutcome b a"
  by (auto simp: sameOutcome_def dest: sameObservable_sym split: sum.splits)

lemma sameOutcome_trans: "sameOutcome a b \<Longrightarrow> sameOutcome b c \<Longrightarrow> sameOutcome a c"
  by (auto simp: sameOutcome_def dest: sameObservable_trans split: sum.splits)

lemma sameOutcome_Inr [simp]: "sameOutcome (Inr s) (Inr t) = sameObservable s t"
  by (simp add: sameOutcome_def)

lemma delivered_append [simp]: "delivered (xs @ ys) = delivered xs @ delivered ys"
  by (simp add: delivered_def)

lemma delivered_closeSequence [simp]:
  "delivered (closeSequence st rnd sc ac err) = closeSequence st rnd sc ac err"
  by (simp add: delivered_def closeSequence_def split: option.splits)

lemma closeSequence_same:
  "sameObservable s t \<Longrightarrow> closeSequence s rnd sc ac err = closeSequence t rnd sc ac err"
  by (simp add: sameObservable_def closeSequence_def)

subsection \<open>Every step of the parser respects the observer\<close>

lemma same_dropConnection:
  assumes "sameObservable s t"
  shows "sameObservable (dropConnection s rnd sc ac err) (dropConnection t rnd sc ac err)"
  using assms closeSequence_same [OF assms, of rnd sc ac err]
  by (simp add: dropConnection_eq) (simp add: sameObservable_def)

lemma same_byte0:
  assumes "sameObservable s t"
  shows "case readDataFrameHeader_byte0 s rnd b of
           Return s' \<Rightarrow> \<exists>t'. readDataFrameHeader_byte0 t rnd b = Return t' \<and> sameObservable s' t'
         | Next (s1, x) \<Rightarrow> \<exists>t1. readDataFrameHeader_byte0 t rnd b = Next (t1, x) \<and> sameObservable s1 t1"
proof -
  have u: "sameObservable (s\<lparr>isFinSet := f\<rparr>) (t\<lparr>isFinSet := f\<rparr>)" for f
    using assms by (simp add: sameObservable_def)
  show ?thesis
    using same_dropConnection [OF assms] same_dropConnection [OF u] u
    by (simp add: readDataFrameHeader_byte0_def Let_def)
qed

lemma same_byte1:
  assumes "sameObservable s t"
  shows "case readDataFrameHeader_byte1 s rnd b of
           Return s' \<Rightarrow> \<exists>t'. readDataFrameHeader_byte1 t rnd b = Return t' \<and> sameObservable s' t'
         | Next (s1, x) \<Rightarrow> \<exists>t1. readDataFrameHeader_byte1 t rnd b = Next (t1, x) \<and> sameObservable s1 t1"
proof -
  have u: "sameObservable (s\<lparr>isMasked := f\<rparr>) (t\<lparr>isMasked := f\<rparr>)" for f
    using assms by (simp add: sameObservable_def)
  have p: "isPeerMaskingRequired s = isPeerMaskingRequired t"
    using assms by (simp add: sameObservable_def)
  show ?thesis
    using same_dropConnection [OF u] u p
    by (simp add: readDataFrameHeader_byte1_def Let_def)
qed

lemma same_length:
  assumes "sameObservable s t"
  shows "case readDataFrameHeader_length s rnd b c of
           Return s' \<Rightarrow> \<exists>t'. readDataFrameHeader_length t rnd b c = Return t' \<and> sameObservable s' t'
         | Next x \<Rightarrow> readDataFrameHeader_length t rnd b c = Next x"
  using same_dropConnection [OF assms]
  by (simp add: readDataFrameHeader_length_def Let_def)

lemma same_key:
  assumes "sameObservable s t"
  shows "case readDataFrameHeader_key s rnd b ml nbi of
           Return s' \<Rightarrow> \<exists>t'. readDataFrameHeader_key t rnd b ml nbi = Return t' \<and> sameObservable s' t'
         | Next (s1, x) \<Rightarrow> \<exists>t1. readDataFrameHeader_key t rnd b ml nbi = Next (t1, x) \<and> sameObservable s1 t1"
proof -
  have u: "sameObservable (s\<lparr>maskingKey := k\<rparr>) (t\<lparr>maskingKey := k\<rparr>)" for k
    using assms by (simp add: sameObservable_def)
  have p: "isMasked s = isMasked t"
    using assms by (simp add: sameObservable_def)
  show ?thesis
    using same_dropConnection [OF assms] u p assms
    by (simp add: readDataFrameHeader_key_def Let_def)
qed


lemma same_fields:
  assumes "sameObservable s t"
  shows "case readDataFrameHeader_fields s rnd b of
           Return s' \<Rightarrow> \<exists>t'. readDataFrameHeader_fields t rnd b = Return t' \<and> sameObservable s' t'
         | Next (s1, x) \<Rightarrow> \<exists>t1. readDataFrameHeader_fields t rnd b = Next (t1, x) \<and> sameObservable s1 t1"
proof (cases "readDataFrameHeader_byte0 s rnd b")
  case (Return s')
  with same_byte0 [OF assms, of rnd b] show ?thesis
    by (auto simp: readDataFrameHeader_fields_def)
next
  case b0: (Next x0)
  obtain s0 opCode where x0: "x0 = (s0, opCode)" by (cases x0)
  from same_byte0 [OF assms, of rnd b] b0 x0 obtain t0 where
    t0: "readDataFrameHeader_byte0 t rnd b = Next (t0, opCode)" and e0: "sameObservable s0 t0"
    by auto
  show ?thesis
  proof (cases "readDataFrameHeader_byte1 s0 rnd b")
    case (Return s')
    with same_byte1 [OF e0, of rnd b] b0 x0 t0 show ?thesis
      by (auto simp: readDataFrameHeader_fields_def)
  next
    case b1: (Next x1)
    obtain s1 pl7 where x1: "x1 = (s1, pl7)" by (cases x1)
    from same_byte1 [OF e0, of rnd b] b1 x1 obtain t1 where
      t1: "readDataFrameHeader_byte1 t0 rnd b = Next (t1, pl7)" and e1: "sameObservable s1 t1"
      by auto
    show ?thesis
    proof (cases "readDataFrameHeader_length s1 rnd b pl7")
      case (Return s')
      with same_length [OF e1, of rnd b pl7] b0 x0 t0 b1 x1 t1 show ?thesis
        by (auto simp: readDataFrameHeader_fields_def)
    next
      case ln: (Next x2)
      obtain pl ml nbi where x2: "x2 = (pl, ml, nbi)" by (cases x2)
      from same_length [OF e1, of rnd b pl7] ln
      have tl: "readDataFrameHeader_length t1 rnd b pl7 = Next x2" by simp
      show ?thesis
      proof (cases "readDataFrameHeader_key s1 rnd b ml nbi")
        case (Return s')
        with same_key [OF e1, of rnd b ml nbi] b0 x0 t0 b1 x1 t1 ln x2 tl show ?thesis
          by (auto simp: readDataFrameHeader_fields_def)
      next
        case ky: (Next x3)
        obtain s3 nbi' where x3: "x3 = (s3, nbi')" by (cases x3)
        from same_key [OF e1, of rnd b ml nbi] ky x3 obtain t3 where
          "readDataFrameHeader_key t1 rnd b ml nbi = Next (t3, nbi')" and "sameObservable s3 t3"
          by auto
        with b0 x0 t0 b1 x1 t1 ln x2 tl ky x3 show ?thesis
          by (simp add: readDataFrameHeader_fields_def)
      qed
    qed
  qed
qed

lemma same_sendPong:
  "sameObservable s t \<Longrightarrow> sameObservable (sendPong s) (sendPong t)"
  by (simp add: sendPong_def emit_def frameDataPong_def sameObservable_def delivered_def)

lemma same_opcode:
  assumes "sameObservable s t"
  shows "case readDataFrameHeader_opcode s rnd opCode of
           Return s' \<Rightarrow> \<exists>t'. readDataFrameHeader_opcode t rnd opCode = Return t' \<and> sameObservable s' t'
         | Next s1 \<Rightarrow> \<exists>t1. readDataFrameHeader_opcode t rnd opCode = Next t1 \<and> sameObservable s1 t1"
proof -
  have u: "sameObservable (s\<lparr>isReadingMessage := True, payloadOpCode := c, payloadBuffers := []\<rparr>)
      (t\<lparr>isReadingMessage := True, payloadOpCode := c, payloadBuffers := []\<rparr>)" for c
    using assms by (simp add: sameObservable_def)
  have r: "isReadingMessage s = isReadingMessage t"
    using assms by (simp add: sameObservable_def)
  show ?thesis
    using same_dropConnection [OF assms] same_sendPong [OF assms] u r assms
    by (auto simp: readDataFrameHeader_opcode_def)
qed

lemma same_onFrameComplete:
  "sameObservable s t \<Longrightarrow> sameObservable (onFrameComplete s) (onFrameComplete t)"
  by (simp add: onFrameComplete_def Let_def emit_def sameObservable_def delivered_def
      split: option.splits)

lemma same_unmask:
  assumes "sameObservable s t"
  shows "case readDataFramePayload_unmask s p of
           Inl e \<Rightarrow> readDataFramePayload_unmask t p = Inl e
         | Inr (s1, q) \<Rightarrow> \<exists>t1. readDataFramePayload_unmask t p = Inr (t1, q) \<and> sameObservable s1 t1"
  using assms
  by (auto simp: readDataFramePayload_unmask_def sameObservable_def split: option.splits prod.splits)

lemma same_consume:
  assumes "sameObservable s t"
  shows "sameOutcome (consume s b) (consume t b)"
proof -
  have r: "remainingLength s = remainingLength t"
    using assms by (simp add: sameObservable_def)
  let ?len = "min (length b) (remainingLength s)"
  show ?thesis
  proof (cases "readDataFramePayload_unmask s (take ?len b)")
    case (Inl e)
    with same_unmask [OF assms, of "take ?len b"] show ?thesis
      by (simp add: consume_def r [symmetric])
  next
    case (Inr x)
    obtain s1 q where x: "x = (s1, q)" by (cases x)
    from same_unmask [OF assms, of "take ?len b"] Inr x obtain t1 where
      t1: "readDataFramePayload_unmask t (take ?len b) = Inr (t1, q)" and e1: "sameObservable s1 t1"
      by auto
    define s2 where "s2 = s1\<lparr>payloadBuffers := payloadBuffers s1 @ [q],
                  remainingLength := toNumber (remainingLength s1 - ?len)\<rparr>"
    define t2 where "t2 = t1\<lparr>payloadBuffers := payloadBuffers t1 @ [q],
                  remainingLength := toNumber (remainingLength t1 - ?len)\<rparr>"
    have e2: "sameObservable s2 t2"
      using e1 by (simp add: sameObservable_def s2_def t2_def)
    have e3: "sameObservable (s2\<lparr>maskingKey := None\<rparr>) (t2\<lparr>maskingKey := None\<rparr>)"
      using e2 by (simp add: sameObservable_def)
    have c: "remainingLength s2 = remainingLength t2" "isFinSet s2 = isFinSet t2"
      using e2 by (simp_all add: sameObservable_def)
    have cs: "consume s b =
        (if remainingLength s2 = 0 \<and> isFinSet s2
         then Inr (onFrameComplete (s2\<lparr>maskingKey := None\<rparr>)) else Inr s2)"
      using Inr x by (simp add: consume_def Let_def s2_def)
    have ct: "consume t b =
        (if remainingLength t2 = 0 \<and> isFinSet t2
         then Inr (onFrameComplete (t2\<lparr>maskingKey := None\<rparr>)) else Inr t2)"
      using t1 by (simp add: consume_def r [symmetric] Let_def t2_def)
    show ?thesis
      unfolding cs ct c
      using e2 same_onFrameComplete [OF e3] by simp
  qed
qed


lemma parser_same_aux:
  "(\<forall>t. sameObservable s t \<longrightarrow>
       sameOutcome (readDataFrameHeader s rnd b) (readDataFrameHeader t rnd b))"
  "(\<forall>t. sameObservable s t \<longrightarrow>
       sameOutcome (readDataFramePayload s rnd b) (readDataFramePayload t rnd b))"
proof (induction rule: parser_induct
    [where P = "\<lambda>s rnd b. \<forall>t. sameObservable s t \<longrightarrow>
                   sameOutcome (readDataFrameHeader s rnd b) (readDataFrameHeader t rnd b)"
       and Q = "\<lambda>s rnd b. \<forall>t. sameObservable s t \<longrightarrow>
                   sameOutcome (readDataFramePayload s rnd b) (readDataFramePayload t rnd b)"])
  case (header st rnd buffer)
  show ?case
  proof (intro allI impI)
    fix t
    assume e: "sameObservable st t"
    show "sameOutcome (readDataFrameHeader st rnd buffer) (readDataFrameHeader t rnd buffer)"
    proof (cases "readDataFrameHeader_fields st rnd buffer")
      case (Return s')
      with same_fields [OF e, of rnd buffer] obtain t' where
        "readDataFrameHeader_fields t rnd buffer = Return t'" "sameObservable s' t'" by auto
      with Return show ?thesis by (simp add: readDataFrameHeader_return)
    next
      case (Next x)
      obtain s1 opCode pl nbi where x: "x = (s1, opCode, pl, nbi)" by (cases x)
      from same_fields [OF e, of rnd buffer] Next x obtain t1 where
        ft: "readDataFrameHeader_fields t rnd buffer = Next (t1, opCode, pl, nbi)"
        and e1: "sameObservable s1 t1" by auto
      note fs = Next [unfolded x]
      show ?thesis
      proof (cases "readDataFrameHeader_opcode s1 rnd opCode")
        case (Return s')
        with same_opcode [OF e1, of rnd opCode] obtain t' where
          ot: "readDataFrameHeader_opcode t1 rnd opCode = Return t'" and "sameObservable s' t'" by auto
        then show ?thesis
          by (simp add: readDataFrameHeader_opcode_return [OF fs Return]
              readDataFrameHeader_opcode_return [OF ft ot])
      next
        case o: (Next s2)
        with same_opcode [OF e1, of rnd opCode] obtain t2 where
          ot: "readDataFrameHeader_opcode t1 rnd opCode = Next t2" and e2: "sameObservable s2 t2" by auto
        have "sameObservable (s2\<lparr>maskingIndex := 0, remainingLength := pl\<rparr>)
            (t2\<lparr>maskingIndex := 0, remainingLength := pl\<rparr>)"
          using e2 by (simp add: sameObservable_def)
        with header [OF fs o] show ?thesis
          by (simp add: readDataFrameHeader_next [OF fs o] readDataFrameHeader_next [OF ft ot])
      qed
    qed
  qed
next
  case (payload st rnd buffer)
  show ?case
  proof (intro allI impI)
    fix t
    assume e: "sameObservable st t"
    then have r: "remainingLength t = remainingLength st" by (simp add: sameObservable_def)
    show "sameOutcome (readDataFramePayload st rnd buffer) (readDataFramePayload t rnd buffer)"
    proof (cases "consume st buffer")
      case (Inl ex)
      with same_consume [OF e, of buffer] show ?thesis
        by (auto simp: readDataFramePayload_consume sameOutcome_def split: sum.splits)
    next
      case (Inr s')
      with same_consume [OF e, of buffer] obtain t' where
        ct: "consume t buffer = Inr t'" and e': "sameObservable s' t'"
        by (auto simp: sameOutcome_def split: sum.splits)
      from e' have r': "remainingLength t' = remainingLength s'" by (simp add: sameObservable_def)
      show ?thesis
      proof (cases "remainingLength s' = 0 \<and> remainingLength st < length buffer")
        case True
        with payload [OF Inr] e' show ?thesis
          by (simp add: readDataFramePayload_consume Inr ct r r')
      next
        case False
        with e' show ?thesis
          by (auto simp: readDataFramePayload_consume Inr ct r r')
      qed
    qed
  qed
qed

lemma header_same:
  "sameObservable s t \<Longrightarrow>
     sameOutcome (readDataFrameHeader s rnd b) (readDataFrameHeader t rnd b)"
  using parser_same_aux(1) by blast

lemma payload_same:
  "sameObservable s t \<Longrightarrow>
     sameOutcome (readDataFramePayload s rnd b) (readDataFramePayload t rnd b)"
  using parser_same_aux(2) by blast


section \<open>A payload that arrives in pieces\<close>

lemma unmaskLoop_append:
  "unmaskLoop k mi (x @ y) =
     (case unmaskLoop k mi x of (px, mi1) \<Rightarrow>
        case unmaskLoop k mi1 y of (py, mi2) \<Rightarrow> (px @ py, mi2))"
  by (induction x arbitrary: mi) (simp_all split: prod.splits)

lemma unmaskLoop_Nil_iff: "fst (unmaskLoop k mi x) = [] \<longleftrightarrow> x = []"
  by (cases x) (simp_all split: prod.splits)

lemma unmask_append:
  assumes "readDataFramePayload_unmask st x = Inr (su, px)"
  shows "readDataFramePayload_unmask st (x @ y) =
     (case readDataFramePayload_unmask su y of
        Inl e \<Rightarrow> Inl e
      | Inr (sv, py) \<Rightarrow> Inr (sv, px @ py))"
proof (cases "isMasked st")
  case False
  with assms show ?thesis by (auto simp: readDataFramePayload_unmask_def)
next
  case True
  show ?thesis
  proof (cases "x = []")
    case True
    with assms show ?thesis
      by (auto simp: readDataFramePayload_unmask_def split: if_splits option.splits prod.splits)
  next
    case False
    with assms \<open>isMasked st\<close> show ?thesis
      by (cases "y = []")
         (auto simp: readDataFramePayload_unmask_def unmaskLoop_append
               split: option.splits prod.splits)
  qed
qed

lemma unmask_frame:
  "readDataFramePayload_unmask (s\<lparr>payloadBuffers := pb, remainingLength := r\<rparr>) y =
     (case readDataFramePayload_unmask s y of
        Inl e \<Rightarrow> Inl e
      | Inr (sv, py) \<Rightarrow> Inr (sv\<lparr>payloadBuffers := pb, remainingLength := r\<rparr>, py))"
  by (simp add: readDataFramePayload_unmask_def split: option.splits prod.splits)

lemma unmask_payloadBuffers:
  "readDataFramePayload_unmask st p = Inr (st', p') \<Longrightarrow> payloadBuffers st' = payloadBuffers st"
  by (auto simp: readDataFramePayload_unmask_def split: if_splits option.splits prod.splits)

lemma unmask_isFinSet:
  "readDataFramePayload_unmask st p = Inr (st', p') \<Longrightarrow> isFinSet st' = isFinSet st"
  by (auto simp: readDataFramePayload_unmask_def split: if_splits option.splits prod.splits)

text \<open>
  A chunk that ends strictly inside the payload of the frame being read leaves a positive
  \<open>remainingLength\<close>; when that is below \<open>2^53\<close> the countdown was exact.
\<close>

lemma consume_inside:
  assumes c: "consume st b1 = Inr s1"
    and pos: "0 < remainingLength s1" and small: "remainingLength s1 < 2 ^ 53"
  shows "length b1 < remainingLength st"
    and "remainingLength s1 = remainingLength st - length b1"
    and "\<exists>su p1. readDataFramePayload_unmask st b1 = Inr (su, p1) \<and>
            s1 = su\<lparr>payloadBuffers := payloadBuffers st @ [p1],
                     remainingLength := remainingLength st - length b1\<rparr>"
proof -
  from consume_remainingLength [OF c]
  have r: "remainingLength s1 = toNumber (remainingLength st - min (length b1) (remainingLength st))" .
  with small have ex: "remainingLength s1 = remainingLength st - min (length b1) (remainingLength st)"
    using toNumber_exact by metis
  with pos show l: "length b1 < remainingLength st" by (simp add: min_def split: if_splits)
  with ex show e: "remainingLength s1 = remainingLength st - length b1" by simp
  from l have m: "min (length b1) (remainingLength st) = length b1" by simp
  from c obtain su p1 where u: "readDataFramePayload_unmask st b1 = Inr (su, p1)"
    by (auto simp: consume_def m Let_def split: sum.splits)
  note ur = unmask_remainingLength [OF u] and up = unmask_payloadBuffers [OF u]
  have ne: "toNumber (remainingLength st - length b1) \<noteq> 0"
    using l by (simp add: toNumber_eq_0)
  have tn: "toNumber (remainingLength st - length b1) = remainingLength st - length b1"
    using r e m by simp
  from c u ne have "s1 = su\<lparr>payloadBuffers := payloadBuffers st @ [p1],
                     remainingLength := remainingLength st - length b1\<rparr>"
    by (simp add: consume_def m Let_def ur up tn)
  with u show "\<exists>su p1. readDataFramePayload_unmask st b1 = Inr (su, p1) \<and>
            s1 = su\<lparr>payloadBuffers := payloadBuffers st @ [p1],
                     remainingLength := remainingLength st - length b1\<rparr>" by blast
qed


lemma consume_split:
  assumes c: "consume st b1 = Inr s1"
    and pos: "0 < remainingLength s1" and small: "remainingLength s1 < 2 ^ 53"
  shows "sameOutcome (consume st (b1 @ b2)) (consume s1 b2)"
proof -
  from consume_inside [OF c pos small] obtain su p1 where
    l: "length b1 < remainingLength st" and
    e: "remainingLength s1 = remainingLength st - length b1" and
    u: "readDataFramePayload_unmask st b1 = Inr (su, p1)" and
    s1: "s1 = su\<lparr>payloadBuffers := payloadBuffers st @ [p1],
                   remainingLength := remainingLength st - length b1\<rparr>"
    by blast
  define r where "r = remainingLength st"
  define len2 where "len2 = min (length b2) (r - length b1)"
  define y where "y = take len2 b2"
  have lenU: "min (length (b1 @ b2)) (remainingLength st) = length b1 + len2"
    using l unfolding len2_def r_def by (simp add: min_def) linarith
  have takeU: "take (length b1 + len2) (b1 @ b2) = b1 @ y"
    by (simp add: y_def)
  have lenS: "min (length b2) (remainingLength s1) = len2"
    by (simp add: e len2_def r_def)
  note ur = unmask_remainingLength [OF u] and up = unmask_payloadBuffers [OF u]
  have us1: "readDataFramePayload_unmask s1 y =
      (case readDataFramePayload_unmask su y of
         Inl ex \<Rightarrow> Inl ex
       | Inr (sv, py) \<Rightarrow>
           Inr (sv\<lparr>payloadBuffers := payloadBuffers st @ [p1],
                    remainingLength := remainingLength st - length b1\<rparr>, py))"
    by (subst s1) (rule unmask_frame)
  have uu: "readDataFramePayload_unmask st (take (min (length (b1 @ b2)) (remainingLength st)) (b1 @ b2)) =
      (case readDataFramePayload_unmask su y of
         Inl ex \<Rightarrow> Inl ex
       | Inr (sv, py) \<Rightarrow> Inr (sv, p1 @ py))"
    unfolding lenU takeU by (rule unmask_append [OF u])
  have us: "readDataFramePayload_unmask s1 (take (min (length b2) (remainingLength s1)) b2) =
      (case readDataFramePayload_unmask su y of
         Inl ex \<Rightarrow> Inl ex
       | Inr (sv, py) \<Rightarrow>
           Inr (sv\<lparr>payloadBuffers := payloadBuffers st @ [p1],
                    remainingLength := remainingLength st - length b1\<rparr>, py))"
    unfolding lenS y_def [symmetric] by (rule us1)
  show ?thesis
  proof (cases "readDataFramePayload_unmask su y")
    case (Inl ex)
    have "consume st (b1 @ b2) = Inl ex"
      unfolding consume_def Let_def uu Inl by simp
    moreover have "consume s1 b2 = Inl ex"
      unfolding consume_def Let_def us Inl by simp
    ultimately show ?thesis by simp
  next
    case (Inr x)
    obtain sv p2 where x: "x = (sv, p2)" by (cases x)
    note v = Inr [unfolded x]
    note vr = unmask_remainingLength [OF v] and vp = unmask_payloadBuffers [OF v]
    define U where "U = sv\<lparr>payloadBuffers := payloadBuffers st @ [p1 @ p2],
        remainingLength := toNumber (r - (length b1 + len2))\<rparr>"
    define V where "V = sv\<lparr>payloadBuffers := (payloadBuffers st @ [p1]) @ [p2],
        remainingLength := toNumber (r - length b1 - len2)\<rparr>"
    have cu: "consume st (b1 @ b2) =
        (if remainingLength U = 0 \<and> isFinSet U
         then Inr (onFrameComplete (U\<lparr>maskingKey := None\<rparr>)) else Inr U)"
    proof -
      have W: "sv\<lparr>payloadBuffers := payloadBuffers sv @ [p1 @ p2],
                remainingLength := toNumber (remainingLength
                  (sv\<lparr>payloadBuffers := payloadBuffers sv @ [p1 @ p2]\<rparr>) -
                    min (length (b1 @ b2)) (remainingLength st))\<rparr> = U"
        unfolding U_def r_def lenU by (simp add: vr vp ur up)
      show ?thesis
        unfolding consume_def Let_def uu v by (simp only: sum.case prod.case W)
    qed
    have cv: "consume s1 b2 =
        (if remainingLength V = 0 \<and> isFinSet V
         then Inr (onFrameComplete (V\<lparr>maskingKey := None\<rparr>)) else Inr V)"
    proof -
      have W: "sv\<lparr>payloadBuffers := payloadBuffers st @ [p1],
                remainingLength := remainingLength st - length b1,
                payloadBuffers := payloadBuffers
                  (sv\<lparr>payloadBuffers := payloadBuffers st @ [p1],
                      remainingLength := remainingLength st - length b1\<rparr>) @ [p2],
                remainingLength := toNumber (remainingLength
                  (sv\<lparr>payloadBuffers := payloadBuffers st @ [p1],
                      remainingLength := remainingLength st - length b1,
                      payloadBuffers := payloadBuffers
                  (sv\<lparr>payloadBuffers := payloadBuffers st @ [p1],
                      remainingLength := remainingLength st - length b1\<rparr>) @ [p2]\<rparr>) -
                    min (length b2) (remainingLength s1))\<rparr> = V"
        unfolding V_def r_def lenS by simp
      show ?thesis
        unfolding consume_def Let_def us v
        apply (simp only: sum.case prod.case)
        apply (simp only: W)
        done
    qed
    have uv: "sameObservable U V"
      by (simp add: U_def V_def sameObservable_def)
    then have uv': "sameObservable (U\<lparr>maskingKey := None\<rparr>) (V\<lparr>maskingKey := None\<rparr>)"
      by (simp add: sameObservable_def)
    have cnd: "remainingLength U = remainingLength V" "isFinSet U = isFinSet V"
      using uv by (simp_all add: sameObservable_def)
    show ?thesis
      unfolding cu cv cnd using uv same_onFrameComplete [OF uv'] by simp
  qed
qed


lemma dropConnection_remainingLength [simp]:
  "remainingLength (dropConnection st rnd sc ac err) = remainingLength st"
  by (simp add: dropConnection_eq)

lemma fields_return_remainingLength:
  assumes "readDataFrameHeader_fields st rnd b = Return s'"
  shows "remainingLength s' = remainingLength st"
  using assms
proof (cases rule: fields_ReturnE)
  case byte0
  then show ?thesis
    by (auto simp: readDataFrameHeader_byte0_def Let_def split: if_splits)
next
  case (byte1 st0 opCode)
  from byte1(2) byte0_next_state(1) [OF byte1(1)] show ?thesis
    by (auto simp: readDataFrameHeader_byte1_def Let_def split: if_splits)
next
  case (len st0 opCode st1 pl7)
  from len(3) byte0_next_state(1) [OF len(1)] byte1_next_state(1) [OF len(2)] show ?thesis
    by (auto simp: readDataFrameHeader_length_def Let_def split: if_splits)
next
  case (key st0 opCode st1 pl7 pl ml nbi)
  from key(4) byte0_next_state(1) [OF key(1)] byte1_next_state(1) [OF key(2)] show ?thesis
    by (auto simp: readDataFrameHeader_key_def Let_def split: if_splits)
qed

lemma fields_next_remainingLength:
  assumes "readDataFrameHeader_fields st rnd b = Next (st1, opCode, pl, nbi)"
  shows "remainingLength st1 = remainingLength st"
  by (subst fields_next_state(1) [OF assms]) simp

lemma opcode_return_remainingLength:
  assumes "readDataFrameHeader_opcode st rnd opCode = Return s'"
  shows "remainingLength s' = remainingLength st"
  using assms
  by (auto simp: readDataFrameHeader_opcode_def sendPong_def emit_def split: if_splits)

lemma opcode_next_any_rnd:
  assumes "readDataFrameHeader_opcode st rnd opCode = Next s2"
  shows "readDataFrameHeader_opcode st rnd' opCode = Next s2"
  using assms
  by (auto simp: readDataFrameHeader_opcode_def split: if_splits)

lemma parser_split_aux:
  "(\<forall>s1. remainingLength st = 0 \<longrightarrow> readDataFrameHeader st rnd1 b1 = Inr s1 \<longrightarrow>
        0 < remainingLength s1 \<longrightarrow> remainingLength s1 < 2 ^ 53 \<longrightarrow>
        sameOutcome (readDataFrameHeader st rnd (b1 @ b2)) (readDataFramePayload s1 rnd b2))"
  "(\<forall>s1. readDataFramePayload st rnd1 b1 = Inr s1 \<longrightarrow>
        0 < remainingLength s1 \<longrightarrow> remainingLength s1 < 2 ^ 53 \<longrightarrow>
        sameOutcome (readDataFramePayload st rnd (b1 @ b2)) (readDataFramePayload s1 rnd b2))"
proof (induction rule: parser_induct
    [where P = "\<lambda>st rnd1 b1. \<forall>s1. remainingLength st = 0 \<longrightarrow>
        readDataFrameHeader st rnd1 b1 = Inr s1 \<longrightarrow>
        0 < remainingLength s1 \<longrightarrow> remainingLength s1 < 2 ^ 53 \<longrightarrow>
        sameOutcome (readDataFrameHeader st rnd (b1 @ b2)) (readDataFramePayload s1 rnd b2)"
       and Q = "\<lambda>st rnd1 b1. \<forall>s1. readDataFramePayload st rnd1 b1 = Inr s1 \<longrightarrow>
        0 < remainingLength s1 \<longrightarrow> remainingLength s1 < 2 ^ 53 \<longrightarrow>
        sameOutcome (readDataFramePayload st rnd (b1 @ b2)) (readDataFramePayload s1 rnd b2)"])
  case (header st rnd1 b1)
  show ?case
  proof (intro allI impI)
    fix s1
    assume z: "remainingLength st = 0" and h: "readDataFrameHeader st rnd1 b1 = Inr s1"
      and pos: "0 < remainingLength s1" and small: "remainingLength s1 < 2 ^ 53"
    show "sameOutcome (readDataFrameHeader st rnd (b1 @ b2)) (readDataFramePayload s1 rnd b2)"
    proof (cases "readDataFrameHeader_fields st rnd1 b1")
      case (Return s')
      from readDataFrameHeader_return [OF Return] h have "s' = s1" by simp
      with fields_return_remainingLength [OF Return] z pos show ?thesis by simp
    next
      case (Next x)
      obtain st1 opCode pl nbi where x: "x = (st1, opCode, pl, nbi)" by (cases x)
      note f = Next [unfolded x]
      note f' = fields_append [OF f, of rnd b2]
      from readDataFrameHeader_fields_next [OF f] have n: "nbi \<le> length b1" by simp
      show ?thesis
      proof (cases "readDataFrameHeader_opcode st1 rnd1 opCode")
        case (Return s')
        from readDataFrameHeader_opcode_return [OF f Return] h have "s' = s1" by simp
        with opcode_return_remainingLength [OF Return] fields_next_remainingLength [OF f] z pos
        show ?thesis by simp
      next
        case o: (Next st2)
        note o' = opcode_next_any_rnd [OF o, of rnd]
        let ?S = "st2\<lparr>maskingIndex := 0, remainingLength := pl\<rparr>"
        from readDataFrameHeader_next [OF f o] h
        have p: "readDataFramePayload ?S rnd1 (drop nbi b1) = Inr s1" by simp
        from header [OF f o] p pos small
        have "sameOutcome (readDataFramePayload ?S rnd (drop nbi b1 @ b2))
            (readDataFramePayload s1 rnd b2)" by simp
        then show ?thesis
          using n by (simp add: readDataFrameHeader_next [OF f' o'])
      qed
    qed
  qed
next
  case (payload st rnd1 b1)
  show ?case
  proof (intro allI impI)
    fix s1
    assume h: "readDataFramePayload st rnd1 b1 = Inr s1"
      and pos: "0 < remainingLength s1" and small: "remainingLength s1 < 2 ^ 53"
    show "sameOutcome (readDataFramePayload st rnd (b1 @ b2)) (readDataFramePayload s1 rnd b2)"
    proof (cases "consume st b1")
      case (Inl ex)
      with h show ?thesis by (simp add: readDataFramePayload_consume)
    next
      case (Inr st')
      show ?thesis
      proof (cases "remainingLength st' = 0 \<and> remainingLength st < length b1")
        case True
        then have le: "remainingLength st \<le> length b1" by simp
        from True Inr h
        have hh: "readDataFrameHeader st' rnd1 (drop (remainingLength st) b1) = Inr s1"
          by (simp add: readDataFramePayload_consume)
        from payload [OF Inr] True hh pos small
        have "sameOutcome (readDataFrameHeader st' rnd (drop (remainingLength st) b1 @ b2))
            (readDataFramePayload s1 rnd b2)" by simp
        then show ?thesis
          using True le Inr
          by (simp add: readDataFramePayload_consume [of st rnd "b1 @ b2"] consume_append [OF le])
      next
        case False
        with Inr h have s1: "st' = s1" by (simp add: readDataFramePayload_consume)
        note c = Inr [unfolded s1]
        note ins = consume_inside(1,2) [OF c pos small]
        from consume_split [OF c pos small, of b2]
        have so: "sameOutcome (consume st (b1 @ b2)) (consume s1 b2)" .
        show ?thesis
        proof (cases "consume st (b1 @ b2)")
          case (Inl ex)
          with so show ?thesis
            by (auto simp: readDataFramePayload_consume sameOutcome_def split: sum.splits)
        next
          case u: (Inr u)
          with so obtain v where v: "consume s1 b2 = Inr v" and uv: "sameObservable u v"
            by (auto simp: sameOutcome_def split: sum.splits)
          from uv have r: "remainingLength v = remainingLength u" by (simp add: sameObservable_def)
          have cnd: "(remainingLength st < length (b1 @ b2)) = (remainingLength s1 < length b2)"
            using ins by auto
          have dr: "drop (remainingLength st) (b1 @ b2) = drop (remainingLength s1) b2"
            using ins by simp
          show ?thesis
            using uv header_same [OF uv, of rnd "drop (remainingLength s1) b2"]
            unfolding readDataFramePayload_consume [of st rnd "b1 @ b2"]
              readDataFramePayload_consume [of s1 rnd b2] u v cnd dr
            by (simp add: r)
        qed
      qed
    qed
  qed
qed


section \<open>Chunk boundaries\<close>

text \<open>
  The socket hands the connection one chunk after the other. A chunk comes with the time of
  its arrival and with the octets the random source would hand out while it is handled.
\<close>

type_synonym chunk = "nat \<times> buffer \<times> buffer"

fun feed :: "connection \<Rightarrow> chunk list \<Rightarrow> exn + connection" where
  "feed st [] = Inr st"
| "feed st ((now, rnd, buffer) # cs) =
     (case onData st now rnd buffer of Inl e \<Rightarrow> Inl e | Inr st' \<Rightarrow> feed st' cs)"

text \<open>
  After every chunk but the last, the parser is inside the payload of a frame, with fewer than
  \<open>2^53\<close> octets to come.
\<close>

fun insidePayload :: "connection \<Rightarrow> chunk list \<Rightarrow> bool" where
  "insidePayload st [] = True"
| "insidePayload st [c] = True"
| "insidePayload st ((now, rnd, buffer) # c # cs) =
     (case onData st now rnd buffer of
        Inl e \<Rightarrow> False
      | Inr st' \<Rightarrow> 0 < remainingLength st' \<and> remainingLength st' < 2 ^ 53 \<and> insidePayload st' (c # cs))"

definition stamp :: "connection \<Rightarrow> nat \<Rightarrow> connection" where
  "stamp st now =
     (let st = st\<lparr>lastSyncDate := now\<rparr>
      in case onSync st of None \<Rightarrow> st | Some cb \<Rightarrow> emit (CallSync cb (lastSyncDate st)) st)"

lemma onData_stamp:
  "onData st now rnd buffer =
     (if remainingLength st = 0 then readDataFrameHeader (stamp st now) rnd buffer
      else readDataFramePayload (stamp st now) rnd buffer)"
  by (simp add: onData_def stamp_def Let_def emit_def split: option.splits)

lemma stamp_same: "sameObservable (stamp st now) st"
  by (simp add: stamp_def Let_def emit_def sameObservable_def delivered_def split: option.splits)

lemma stamp_remainingLength [simp]: "remainingLength (stamp st now) = remainingLength st"
  using stamp_same [of st now] by (simp add: sameObservable_def)

lemma onData_split:
  assumes d: "onData st now1 rnd1 b1 = Inr s1"
    and pos: "0 < remainingLength s1" and small: "remainingLength s1 < 2 ^ 53"
  shows "sameOutcome (onData s1 now2 rnd2 b2) (onData st now2 rnd2 (b1 @ b2))"
proof -
  have e: "sameObservable (stamp st now2) (stamp st now1)"
    by (rule sameObservable_trans [OF stamp_same sameObservable_sym [OF stamp_same]])
  have second: "sameOutcome (onData s1 now2 rnd2 b2) (readDataFramePayload s1 rnd2 b2)"
    using pos payload_same [OF stamp_same, of s1 now2 rnd2 b2] by (simp add: onData_stamp)
  show ?thesis
  proof (cases "remainingLength st = 0")
    case True
    with d have h: "readDataFrameHeader (stamp st now1) rnd1 b1 = Inr s1" by (simp add: onData_stamp)
    from parser_split_aux(1) [of "stamp st now1" rnd1 b1 rnd2 b2] True h pos small
    have "sameOutcome (readDataFrameHeader (stamp st now1) rnd2 (b1 @ b2))
        (readDataFramePayload s1 rnd2 b2)" by simp
    from sameOutcome_trans [OF header_same [OF e] this]
    have "sameOutcome (onData st now2 rnd2 (b1 @ b2)) (readDataFramePayload s1 rnd2 b2)"
      using True by (simp add: onData_stamp)
    from sameOutcome_trans [OF second sameOutcome_sym [OF this]] show ?thesis .
  next
    case False
    with d have h: "readDataFramePayload (stamp st now1) rnd1 b1 = Inr s1" by (simp add: onData_stamp)
    from parser_split_aux(2) [of "stamp st now1" rnd1 b1 rnd2 b2] h pos small
    have "sameOutcome (readDataFramePayload (stamp st now1) rnd2 (b1 @ b2))
        (readDataFramePayload s1 rnd2 b2)" by simp
    from sameOutcome_trans [OF payload_same [OF e] this]
    have "sameOutcome (onData st now2 rnd2 (b1 @ b2)) (readDataFramePayload s1 rnd2 b2)"
      using False by (simp add: onData_stamp)
    from sameOutcome_trans [OF second sameOutcome_sym [OF this]] show ?thesis .
  qed
qed

text \<open>The chunks of a list as one chunk, arriving when the last one does.\<close>

definition whole :: "chunk list \<Rightarrow> chunk" where
  "whole cs = (fst (last cs), fst (snd (last cs)), concat (map (\<lambda>c. snd (snd c)) cs))"

lemma feed_whole:
  assumes "cs \<noteq> []" and "insidePayload st cs"
  shows "sameOutcome (feed st cs) (feed st [whole cs])"
  using assms
proof (induction st cs rule: insidePayload.induct)
  case (1 st)
  then show ?case by simp
next
  case (2 st c)
  obtain now rnd b where c: "c = (now, rnd, b)" by (cases c)
  show ?case by (simp add: c whole_def)
next
  case (3 st now rnd buffer c cs)
  from "3.prems"(2) obtain s1 where
    d: "onData st now rnd buffer = Inr s1" and pos: "0 < remainingLength s1"
    and small: "remainingLength s1 < 2 ^ 53" and ins: "insidePayload s1 (c # cs)"
    by (auto split: sum.splits)
  obtain now2 rnd2 b2 where w: "whole (c # cs) = (now2, rnd2, b2)" by (cases "whole (c # cs)")
  have w': "whole ((now, rnd, buffer) # c # cs) = (now2, rnd2, buffer @ b2)"
    using w by (simp add: whole_def)
  from "3.IH" [OF d] pos small ins
  have ih: "sameOutcome (feed s1 (c # cs)) (feed s1 [whole (c # cs)])" by simp
  have a: "feed st ((now, rnd, buffer) # c # cs) = feed s1 (c # cs)"
    using d by simp
  have b: "feed s1 [whole (c # cs)] = onData s1 now2 rnd2 b2"
    by (simp add: w split: sum.splits)
  have c': "feed st [whole ((now, rnd, buffer) # c # cs)] = onData st now2 rnd2 (buffer @ b2)"
    by (simp add: w' split: sum.splits)
  from onData_split [OF d pos small, of now2 rnd2 b2]
  have "sameOutcome (onData s1 now2 rnd2 b2) (onData st now2 rnd2 (buffer @ b2))" .
  with ih show ?case
    unfolding a b c' by (rule sameOutcome_trans)
qed

end
